theory Spec2Isabelle
  imports Complex_Main "HOL-Library.Word" "HOL-Library.Product_Lexorder"
begin

unbundle bit_operations_syntax

section \<open>FMCW peak distance: the model of \<open>calculate_dist_from_fmcw.c\<close>\<close>

text \<open>
  The file computes the range of a radar target: a spectral transform of the sample
  buffer (in software, or by a hardware accelerator after a bit-reversal permutation and
  a conversion to fixed point), a scan for the bin of maximal power, and the mapping of
  that bin to a distance.

  Conventions of the model.
  \<^item> \<open>unsigned int\<close> is \<open>32 word\<close>, \<open>int64_t\<close> is \<open>64 word\<close>; index arithmetic such as
    \<open>2 * i + 1\<close> is done on words and read with \<open>unat\<close>, so it wraps as in C.
  \<^item> A \<open>float\<close> or \<open>double\<close> expression has a value of type \<open>cfloat\<close>: every operation
    is rounded to its C type (binary32 or binary64, to nearest, ties to even), overflows
    to an infinity, and can be not-a-number.
  \<^item> A sample buffer holds finite \<open>float\<close> values, as reals. The fixed-point decoding
    keeps the decoded value as it is: it is the \<open>float\<close> stored whenever it is a value of
    \<open>float\<close>, as for every value decoded from an encoded \<open>float\<close> sample.
  \<^item> A \<open>float *\<close> buffer is a list; an access outside of it is the fault \<open>Out_Of_Bounds\<close>.
  \<^item> \<open>exit(EXIT_FAILURE)\<close> after \<open>perror\<close> is the fault \<open>Exit_Failure\<close> carrying the
    message handed to \<open>perror\<close>.
  \<^item> The wall-clock bookkeeping under \<open>INT_TIME\<close> does not touch the buffer or the result
    and is left out.
\<close>

type_synonym u32 = "32 word"
type_synonym i64 = "64 word"

datatype fault = Out_Of_Bounds | Signed_Overflow | Exit_Failure string

text \<open>
  The radar parameters are macros of \<open>calc_fmcw_dist.h\<close>, which is not among the
  sources; they are parameters of the model. \<open>RADAR_N\<close> and \<open>RADAR_LOGN\<close> are what the
  comparison \<open>i < RADAR_N\<close> and the call of \<open>fft\<close> see: unsigned 32-bit values.
\<close>

record radar =
  RADAR_N :: u32
  RADAR_LOGN :: u32
  RADAR_fs :: real
  RADAR_c :: real
  RADAR_alpha :: real

text \<open>The globals of the hardware build: \<open>extern int32_t fftHW_len, fftHW_log_len\<close> and
  the device-visible memory \<open>int64_t *fftHW_lmem\<close>.\<close>

record fftHW =
  fftHW_len :: u32
  fftHW_log_len :: u32
  fftHW_lmem :: "i64 list"

text \<open>
  The two external collaborators. \<open>fft\<close> (of \<open>fft-1d.h\<close>) gets the buffer, \<open>N\<close>,
  \<open>log N\<close> and the direction, and leaves the transformed buffer. The device request
  \<open>ioctl(fd, FFTHW_IOC_ACCESS, desc)\<close> gets the device memory and leaves a status and
  the memory after the request. The conditional compilation on \<open>HW_FFT\<close> is the choice
  of a \<open>build\<close>.
\<close>

type_synonym fft_fn = "real list \<Rightarrow> u32 \<Rightarrow> u32 \<Rightarrow> int \<Rightarrow> real list"
type_synonym ioctl_fn = "i64 list \<Rightarrow> int \<times> i64 list"

datatype build = SW_FFT fft_fn | HW_FFT ioctl_fn

subsection \<open>Floating point\<close>

text \<open>
  The values of \<open>float\<close> (IEEE binary32) and \<open>double\<close> (binary64) expressions: a finite
  value, the two infinities, or not-a-number. Zero carries no sign: the function never
  divides by a zero that could be negative for the parameters the results below admit.
  Every operation is computed exactly and then rounded to its C type, to nearest with ties
  to even, as on the targets of this code (no excess precision).
\<close>

datatype cfloat = Finite real | INFINITY | NEG_INFINITY | NAN

definition pow2 :: "int \<Rightarrow> real" where
  "pow2 e = (if 0 \<le> e then 2 ^ nat e else 1 / 2 ^ nat (- e))"

text \<open>The number of binary digits of a positive integer.\<close>

function bit_length :: "int \<Rightarrow> int" where
  "bit_length n = (if n \<le> 0 then 0 else 1 + bit_length (n div 2))"
  by pat_completeness auto
termination
  by (relation "measure nat") simp_all

declare bit_length.simps [simp del]

text \<open>The binary exponent of a non-zero real: \<open>pow2 (expo x) \<le> \<bar>x\<bar> < pow2 (expo x + 1)\<close>.\<close>

definition expo :: "real \<Rightarrow> int" where
  "expo x = (if 1 \<le> \<bar>x\<bar> then bit_length \<lfloor>\<bar>x\<bar>\<rfloor> - 1
             else - bit_length (\<lceil>1 / \<bar>x\<bar>\<rceil> - 1))"

text \<open>The nearest integer, the even one of two that are equally near.\<close>

definition round_even :: "real \<Rightarrow> int" where
  "round_even y =
     (let f = \<lfloor>y\<rfloor>; d = y - of_int f
      in if d < 1 / 2 then f else if 1 / 2 < d then f + 1
         else if even f then f else f + 1)"

text \<open>
  Rounding to \<open>p\<close> significant bits, with \<open>pow2 qmin\<close> the least positive value of the
  format (below the normal range the spacing stays \<open>pow2 qmin\<close>), and the overflow of the
  rounded value beyond \<open>pow2 (emax + 1)\<close> to an infinity.
\<close>

definition round_bin :: "nat \<Rightarrow> int \<Rightarrow> real \<Rightarrow> real" where
  "round_bin p qmin x =
     (if x = 0 then 0
      else (let q = max (expo x - int p + 1) qmin
            in of_int (round_even (x / pow2 q)) * pow2 q))"

definition fround :: "nat \<Rightarrow> int \<Rightarrow> int \<Rightarrow> real \<Rightarrow> cfloat" where
  "fround p qmin emax x =
     (let r = round_bin p qmin x
      in if pow2 (emax + 1) \<le> r then INFINITY
         else if r \<le> - pow2 (emax + 1) then NEG_INFINITY
         else Finite r)"

definition f32 :: "real \<Rightarrow> cfloat" where
  "f32 = fround 24 (- 149) 127"

definition f64 :: "real \<Rightarrow> cfloat" where
  "f64 = fround 53 (- 1074) 1023"

text \<open>The arithmetic of C on these values; \<open>rnd\<close> is the rounding of the type of the
  result (\<open>f32\<close> or \<open>f64\<close>).\<close>

fun fmul :: "(real \<Rightarrow> cfloat) \<Rightarrow> cfloat \<Rightarrow> cfloat \<Rightarrow> cfloat" where
  "fmul rnd (Finite a) (Finite b) = rnd (a * b)"
| "fmul rnd NAN y = NAN"
| "fmul rnd x NAN = NAN"
| "fmul rnd (Finite a) INFINITY =
     (if a = 0 then NAN else if 0 < a then INFINITY else NEG_INFINITY)"
| "fmul rnd (Finite a) NEG_INFINITY =
     (if a = 0 then NAN else if 0 < a then NEG_INFINITY else INFINITY)"
| "fmul rnd INFINITY (Finite b) =
     (if b = 0 then NAN else if 0 < b then INFINITY else NEG_INFINITY)"
| "fmul rnd NEG_INFINITY (Finite b) =
     (if b = 0 then NAN else if 0 < b then NEG_INFINITY else INFINITY)"
| "fmul rnd INFINITY INFINITY = INFINITY"
| "fmul rnd INFINITY NEG_INFINITY = NEG_INFINITY"
| "fmul rnd NEG_INFINITY INFINITY = NEG_INFINITY"
| "fmul rnd NEG_INFINITY NEG_INFINITY = INFINITY"

fun fdiv :: "(real \<Rightarrow> cfloat) \<Rightarrow> cfloat \<Rightarrow> cfloat \<Rightarrow> cfloat" where
  "fdiv rnd (Finite a) (Finite b) =
     (if b = 0 then (if a = 0 then NAN else if 0 < a then INFINITY else NEG_INFINITY)
      else rnd (a / b))"
| "fdiv rnd NAN y = NAN"
| "fdiv rnd x NAN = NAN"
| "fdiv rnd (Finite a) INFINITY = Finite 0"
| "fdiv rnd (Finite a) NEG_INFINITY = Finite 0"
| "fdiv rnd INFINITY (Finite b) = (if 0 \<le> b then INFINITY else NEG_INFINITY)"
| "fdiv rnd NEG_INFINITY (Finite b) = (if 0 \<le> b then NEG_INFINITY else INFINITY)"
| "fdiv rnd INFINITY INFINITY = NAN"
| "fdiv rnd INFINITY NEG_INFINITY = NAN"
| "fdiv rnd NEG_INFINITY INFINITY = NAN"
| "fdiv rnd NEG_INFINITY NEG_INFINITY = NAN"

fun fadd :: "(real \<Rightarrow> cfloat) \<Rightarrow> cfloat \<Rightarrow> cfloat \<Rightarrow> cfloat" where
  "fadd rnd (Finite a) (Finite b) = rnd (a + b)"
| "fadd rnd NAN y = NAN"
| "fadd rnd x NAN = NAN"
| "fadd rnd INFINITY NEG_INFINITY = NAN"
| "fadd rnd NEG_INFINITY INFINITY = NAN"
| "fadd rnd INFINITY y = INFINITY"
| "fadd rnd NEG_INFINITY y = NEG_INFINITY"
| "fadd rnd x INFINITY = INFINITY"
| "fadd rnd x NEG_INFINITY = NEG_INFINITY"

text \<open>A conversion to the type with rounding \<open>rnd\<close>: a cast, or the store into a variable.\<close>

fun fcast :: "(real \<Rightarrow> cfloat) \<Rightarrow> cfloat \<Rightarrow> cfloat" where
  "fcast rnd (Finite a) = rnd a"
| "fcast rnd x = x"

text \<open>The comparison \<open>x > y\<close>: false whenever an operand is not a number.\<close>

fun fgt :: "cfloat \<Rightarrow> cfloat \<Rightarrow> bool" where
  "fgt NAN y = False"
| "fgt x NAN = False"
| "fgt (Finite a) (Finite b) = (b < a)"
| "fgt INFINITY INFINITY = False"
| "fgt INFINITY y = True"
| "fgt x INFINITY = False"
| "fgt NEG_INFINITY y = False"
| "fgt x NEG_INFINITY = True"

text \<open>The reals that are values of \<open>float\<close>.\<close>

definition is_binary32 :: "real \<Rightarrow> bool" where
  "is_binary32 x \<longleftrightarrow> f32 x = Finite x"

text \<open>The position of a value in the order of the comparison, for values that are
  numbers.\<close>

fun rank :: "cfloat \<Rightarrow> int \<times> real" where
  "rank NEG_INFINITY = (- 1, 0)"
| "rank (Finite a) = (0, a)"
| "rank INFINITY = (1, 0)"
| "rank NAN = (2, 0)"

subsection \<open>Bit reversal (\<open>fft_rev\<close>, \<open>fft_bit_reverse\<close>)\<close>

text \<open>
  \<^verbatim>\<open>for (v >>= 1; v; v >>= 1) { r <<= 1; r |= v & 1; s--; }\<close>
\<close>

function fft_rev_loop :: "u32 \<Rightarrow> u32 \<Rightarrow> int \<Rightarrow> u32 \<times> int" where
  "fft_rev_loop v r s =
     (if v \<noteq> 0
      then fft_rev_loop (drop_bit 1 v) (push_bit 1 r OR (v AND 1)) (s - 1)
      else (r, s))"
  by pat_completeness auto
termination
proof (relation "measure (\<lambda>(v, r, s). unat v)")
  show "wf (measure (\<lambda>(v, r, s). unat v))" by simp
next
  fix v r :: u32 and s :: int
  assume "v \<noteq> 0"
  then have "unat v \<noteq> 0" by (simp add: unat_eq_0)
  then have "unat v div 2 < unat v" by simp
  then show "((drop_bit 1 v, push_bit 1 r OR (v AND 1), s - 1), (v, r, s))
      \<in> measure (\<lambda>(v, r, s). unat v)"
    by (simp add: drop_bit_eq_div unat_div)
qed

declare fft_rev_loop.simps [simp del]

definition fft_rev :: "u32 \<Rightarrow> u32" where
  "fft_rev v = (case fft_rev_loop (drop_bit 1 v) v 31 of (r, s) \<Rightarrow> push_bit (nat s) r)"

text \<open>
  The body of the \<open>if (i < r)\<close> of \<open>fft_bit_reverse\<close>: the six assignments, in the
  order of the source. The element type does not matter: the values are only moved.
\<close>

definition swap_samples :: "'f list \<Rightarrow> u32 \<Rightarrow> u32 \<Rightarrow> fault + 'f list" where
  "swap_samples w i r =
     (if unat (2 * i) < length w \<and> unat (2 * i + 1) < length w \<and>
         unat (2 * r) < length w \<and> unat (2 * r + 1) < length w
      then
        (let t_real = w ! unat (2 * i);
             t_imag = w ! unat (2 * i + 1);
             w = w[unat (2 * i) := w ! unat (2 * r)];
             w = w[unat (2 * i + 1) := w ! unat (2 * r + 1)];
             w = w[unat (2 * r) := t_real];
             w = w[unat (2 * r + 1) := t_imag]
         in Inr w)
      else Inl Out_Of_Bounds)"

text \<open>
  \<^verbatim>\<open>for (i = 0; i < n; i++) { r = fft_rev(i); r >>= shift; if (i < r) { ... } }\<close>
  The counter cannot wrap: it is incremented only below \<open>n\<close>.
  For a shift count of 32 (\<open>bits = 0\<close>) C leaves the value of \<open>r >> shift\<close> open;
  \<open>drop_bit\<close> gives 0. With \<open>n = 1\<close> the only value shifted is \<open>fft_rev 0 = 0\<close>,
  which every shift leaves 0.
\<close>

function fft_bit_reverse_loop :: "'f list \<Rightarrow> u32 \<Rightarrow> u32 \<Rightarrow> u32 \<Rightarrow> fault + 'f list" where
  "fft_bit_reverse_loop w n shift i =
     (if i < n
      then
        (let r = drop_bit (unat shift) (fft_rev i)
         in if i < r
            then (case swap_samples w i r of
                    Inl e \<Rightarrow> Inl e
                  | Inr w' \<Rightarrow> fft_bit_reverse_loop w' n shift (i + 1))
            else fft_bit_reverse_loop w n shift (i + 1))
      else Inr w)"
  by pat_completeness auto
termination
proof (relation "measure (\<lambda>(w, n, shift, i). unat n - unat i)")
  show "wf (measure (\<lambda>(w, n, shift, i). unat n - unat i))" by simp
next
  fix w w' :: "'f list" and n shift i r :: u32
  assume "i < n"
  then have lt: "unat i < unat n" by (simp add: word_less_nat_alt)
  moreover have "unat n < 2 ^ 32" using unsigned_less [of n] by simp
  ultimately have "unat i + 1 < 2 ^ 32" by simp
  then have "unat (i + 1) = Suc (unat i)" by (simp add: unat_word_ariths)
  with lt have "unat n - unat (i + 1) < unat n - unat i" by simp
  then show "((w', n, shift, i + 1), (w, n, shift, i))
      \<in> measure (\<lambda>(w, n, shift, i). unat n - unat i)"
    and "((w, n, shift, i + 1), (w, n, shift, i))
      \<in> measure (\<lambda>(w, n, shift, i). unat n - unat i)"
    by simp_all
qed

declare fft_bit_reverse_loop.simps [simp del]

definition fft_bit_reverse :: "'f list \<Rightarrow> u32 \<Rightarrow> u32 \<Rightarrow> fault + 'f list" where
  "fft_bit_reverse w n bits =
     (let s = 31 :: u32;
          shift = s - bits + 1
      in fft_bit_reverse_loop w n shift 0)"

text \<open>
  The specification side of the permutation: the \<open>b\<close>-bit reversal of an index, and the
  complex sample (real part, imaginary part) at an index of an interleaved buffer.
\<close>

fun bit_reversal :: "nat \<Rightarrow> nat \<Rightarrow> nat" where
  "bit_reversal 0 i = 0"
| "bit_reversal (Suc b) i = (i mod 2) * 2 ^ b + bit_reversal b (i div 2)"

definition sample :: "'f list \<Rightarrow> nat \<Rightarrow> 'f \<times> 'f" where
  "sample w j = (w ! (2 * j), w ! (2 * j + 1))"

subsection \<open>Fixed-point codec\<close>

text \<open>
  \<open>double_to_fixed64\<close> and \<open>fixed64_to_double\<close> are declared in \<open>fixed_point.h\<close>, which is
  not among the sources; the calls pass the sample and the constant 42. The spec gives
  \<open>encode(x: float64, fractional_bits) -> int64\<close> and
  \<open>decode(x: int64, fractional_bits) -> float64\<close>, an approximate round-trip pair bounded
  by the quantization error \<open>2 ^ - fractional_bits\<close>, with no error conditions, relying on
  integer truncation and wrapping on overflow as fixed-width integer arithmetic does.
\<close>

text \<open>Modelled from the spec: the integer truncation of the conversion from \<open>double\<close> to
  \<open>int64_t\<close> inside the missing \<open>double_to_fixed64\<close>, towards zero as a C cast does.\<close>

definition trunc_toward_zero :: "real \<Rightarrow> int" where
  "trunc_toward_zero y = (if 0 \<le> y then \<lfloor>y\<rfloor> else \<lceil>y\<rceil>)"

text \<open>Modelled from the spec: \<open>double_to_fixed64\<close> of the missing \<open>fixed_point.h\<close>, the
  spec's \<open>encode\<close>: scale by \<open>2 ^ fractional_bits\<close>, truncate, keep the low 64 bits.\<close>

definition double_to_fixed64 :: "real \<Rightarrow> nat \<Rightarrow> i64" where
  "double_to_fixed64 x fractional_bits =
     word_of_int (trunc_toward_zero (x * 2 ^ fractional_bits))"

text \<open>Modelled from the spec: \<open>fixed64_to_double\<close> of the missing \<open>fixed_point.h\<close>, the
  spec's \<open>decode\<close>: read the word as a signed integer and scale back.\<close>

definition fixed64_to_double :: "i64 \<Rightarrow> nat \<Rightarrow> real" where
  "fixed64_to_double w fractional_bits = real_of_int (sint w) / 2 ^ fractional_bits"

text \<open>Modelled from the spec: its "representable \<open>x\<close>", the reals the format holds with a
  given number of fractional bits; the scaled value is in the range of \<open>int64_t\<close>.\<close>

definition representable :: "real \<Rightarrow> nat \<Rightarrow> bool" where
  "representable x fractional_bits \<longleftrightarrow>
     - (2 ^ 63) \<le> x * 2 ^ fractional_bits \<and> x * 2 ^ fractional_bits < 2 ^ 63"

subsection \<open>The hardware transform\<close>

text \<open>\<^verbatim>\<open>if (ioctl(*fd, FFTHW_IOC_ACCESS, *desc)) { perror("IOCTL:"); exit(EXIT_FAILURE); }\<close>\<close>

definition fft_in_hw :: "ioctl_fn \<Rightarrow> i64 list \<Rightarrow> fault + i64 list" where
  "fft_in_hw ioctl lmem =
     (case ioctl lmem of
        (status, lmem') \<Rightarrow> if status \<noteq> 0 then Inl (Exit_Failure ''IOCTL:'') else Inr lmem')"

text \<open>
  \<^verbatim>\<open>for (int j = 0; j < 2 * fftHW_len; j++) fftHW_lmem[j] = double_to_fixed64((double) data[j], 42);\<close>
  The bound is the value of \<open>2 * fftHW_len\<close>; \<open>j\<close> stays below it, so \<open>j++\<close> does not
  overflow.
\<close>

function cvt_in_loop :: "real list \<Rightarrow> i64 list \<Rightarrow> int \<Rightarrow> int \<Rightarrow> fault + i64 list" where
  "cvt_in_loop data lmem bound j =
     (if j < bound
      then
        (if 0 \<le> j \<and> nat j < length data \<and> nat j < length lmem
         then cvt_in_loop data (lmem[nat j := double_to_fixed64 (data ! nat j) 42]) bound (j + 1)
         else Inl Out_Of_Bounds)
      else Inr lmem)"
  by pat_completeness auto
termination
  by (relation "measure (\<lambda>(data, lmem, bound, j). nat (bound - j))") simp_all

declare cvt_in_loop.simps [simp del]

text \<open>
  \<^verbatim>\<open>for (int j = 0; j < 2 * fftHW_len; j++) data[j] = (float)fixed64_to_double(fftHW_lmem[j], 42);\<close>
\<close>

function cvt_out_loop :: "i64 list \<Rightarrow> real list \<Rightarrow> int \<Rightarrow> int \<Rightarrow> fault + real list" where
  "cvt_out_loop lmem data bound j =
     (if j < bound
      then
        (if 0 \<le> j \<and> nat j < length data \<and> nat j < length lmem
         then cvt_out_loop lmem (data[nat j := fixed64_to_double (lmem ! nat j) 42]) bound (j + 1)
         else Inl Out_Of_Bounds)
      else Inr data)"
  by pat_completeness auto
termination
  by (relation "measure (\<lambda>(lmem, data, bound, j). nat (bound - j))") simp_all

declare cvt_out_loop.simps [simp del]

text \<open>
  Lines 113 to 160: the transform of the buffer, by the build at hand. In the hardware
  build \<open>2 * fftHW_len\<close> is a product of \<open>int\<close>; outside of the range of \<open>int\<close> it is
  the fault \<open>Signed_Overflow\<close>.
\<close>

definition transform_stage ::
    "build \<Rightarrow> radar \<Rightarrow> fftHW \<Rightarrow> real list \<Rightarrow> fault + real list \<times> fftHW" where
  "transform_stage b p hw data =
     (case b of
        SW_FFT fft \<Rightarrow> Inr (fft data (RADAR_N p) (RADAR_LOGN p) (- 1), hw)
      | HW_FFT ioctl \<Rightarrow>
          (case fft_bit_reverse data (fftHW_len hw) (fftHW_log_len hw) of
             Inl e \<Rightarrow> Inl e
           | Inr data \<Rightarrow>
               (let bound = 2 * sint (fftHW_len hw)
                in if bound < - (2 ^ 31) \<or> 2 ^ 31 - 1 < bound then Inl Signed_Overflow
                   else
                     (case cvt_in_loop data (fftHW_lmem hw) bound 0 of
                        Inl e \<Rightarrow> Inl e
                      | Inr lmem \<Rightarrow>
                          (case fft_in_hw ioctl lmem of
                             Inl e \<Rightarrow> Inl e
                           | Inr lmem \<Rightarrow>
                               (case cvt_out_loop lmem data bound 0 of
                                  Inl e \<Rightarrow> Inl e
                                | Inr data \<Rightarrow> Inr (data, hw\<lparr>fftHW_lmem := lmem\<rparr>)))))))"

subsection \<open>Peak scan and distance\<close>

text \<open>
  \<^verbatim>\<open>temp = (pow(data[2*i],2) + pow(data[2*i+1],2))/100.0;\<close>
  The samples are promoted to \<open>double\<close>, \<open>pow\<close>, sum and quotient are \<open>double\<close>, and the
  store into the \<open>float\<close> variable \<open>temp\<close> rounds to binary32.
\<close>

definition psd :: "real \<Rightarrow> real \<Rightarrow> cfloat" where
  "psd re im =
     fcast f32
       (fdiv f64 (fadd f64 (fmul f64 (Finite re) (Finite re)) (fmul f64 (Finite im) (Finite im)))
          (Finite 100))"

text \<open>
  \<^verbatim>\<open>for (i=0; i < RADAR_N; i++) {
    temp = (pow(data[2*i],2) + pow(data[2*i+1],2))/100.0;
    if (temp > max_psd) { max_psd = temp; max_index = i; } }\<close>
\<close>

function peak_scan ::
    "real list \<Rightarrow> u32 \<Rightarrow> u32 \<Rightarrow> cfloat \<times> u32 \<Rightarrow> fault + cfloat \<times> u32" where
  "peak_scan data N i (max_psd, max_index) =
     (if i < N
      then
        (if unat (2 * i) < length data \<and> unat (2 * i + 1) < length data
         then
           (let temp = psd (data ! unat (2 * i)) (data ! unat (2 * i + 1))
            in if fgt temp max_psd
               then peak_scan data N (i + 1) (temp, i)
               else peak_scan data N (i + 1) (max_psd, max_index))
         else Inl Out_Of_Bounds)
      else Inr (max_psd, max_index))"
  by pat_completeness auto
termination
proof (relation "measure (\<lambda>(data, N, i, acc). unat N - unat i)")
  show "wf (measure (\<lambda>(data, N, i, acc). unat N - unat i))" by simp
next
  fix data :: "real list" and N i max_index :: u32 and max_psd temp :: cfloat
  assume "i < N"
  then have lt: "unat i < unat N" by (simp add: word_less_nat_alt)
  moreover have "unat N < 2 ^ 32" using unsigned_less [of N] by simp
  ultimately have "unat i + 1 < 2 ^ 32" by simp
  then have "unat (i + 1) = Suc (unat i)" by (simp add: unat_word_ariths)
  with lt have "unat N - unat (i + 1) < unat N - unat i" by simp
  then show "((data, N, i + 1, temp, i), (data, N, i, max_psd, max_index))
      \<in> measure (\<lambda>(data, N, i, acc). unat N - unat i)"
    and "((data, N, i + 1, max_psd, max_index), (data, N, i, max_psd, max_index))
      \<in> measure (\<lambda>(data, N, i, acc). unat N - unat i)"
    by simp_all
qed

declare peak_scan.simps [simp del]

text \<open>
  \<^verbatim>\<open>float distance = ((float)(max_index*((float)RADAR_fs)/((float)(RADAR_N))))*0.5*RADAR_c/((float)(RADAR_alpha));\<close>
  \<open>max_index\<close> is converted to \<open>float\<close> for the product with \<open>(float)RADAR_fs\<close>; product
  and quotient by \<open>(float)RADAR_N\<close> are \<open>float\<close>; the products with \<open>0.5\<close> and with
  \<open>RADAR_c\<close> (its value as a \<open>double\<close>) and the quotient by \<open>(float)RADAR_alpha\<close> are
  \<open>double\<close>; the store into \<open>distance\<close> rounds to binary32.
\<close>

definition distance :: "radar \<Rightarrow> u32 \<Rightarrow> cfloat" where
  "distance p max_index =
     (let t1 = fmul f32 (f32 (real (unat max_index))) (f32 (RADAR_fs p));
          t2 = fdiv f32 t1 (f32 (real (unat (RADAR_N p))));
          t3 = fmul f64 t2 (Finite (1 / 2));
          t4 = fmul f64 t3 (f64 (RADAR_c p));
          t5 = fdiv f64 t4 (f32 (RADAR_alpha p))
      in fcast f32 t5)"

text \<open>The constant \<open>1e-10*pow(8192,2)\<close> of the detection test, a \<open>double\<close>.\<close>

definition threshold :: cfloat where
  "threshold = fmul f64 (f64 (1 / 10 ^ 10)) (fmul f64 (Finite 8192) (Finite 8192))"

text \<open>Lines 169 to 191: scan, distance, detection test. The function returns the \<open>float\<close>
  \<open>distance\<close> or the constant \<open>INFINITY\<close>.\<close>

definition peak_stage :: "radar \<Rightarrow> real list \<Rightarrow> fault + cfloat" where
  "peak_stage p data =
     (case peak_scan data (RADAR_N p) 0 (Finite 0, 0) of
        Inl e \<Rightarrow> Inl e
      | Inr (max_psd, max_index) \<Rightarrow>
          (let d = distance p max_index
           in if fgt max_psd threshold then Inr d else Inr INFINITY))"

text \<open>
  The whole function: what it leaves in the buffer and in the device memory, and what
  it returns.
\<close>

definition calculate_peak_dist_from_fmcw ::
    "build \<Rightarrow> radar \<Rightarrow> fftHW \<Rightarrow> real list \<Rightarrow> fault + real list \<times> fftHW \<times> cfloat" where
  "calculate_peak_dist_from_fmcw b p hw data =
     (case transform_stage b p hw data of
        Inl e \<Rightarrow> Inl e
      | Inr (data, hw) \<Rightarrow>
          (case peak_stage p data of
             Inl e \<Rightarrow> Inl e
           | Inr ret \<Rightarrow> Inr (data, hw, ret)))"

text \<open>The power of a bin as the scan computes it, on natural indices, and the same
  expression over the reals, without any rounding.\<close>

definition bin_power :: "real list \<Rightarrow> nat \<Rightarrow> cfloat" where
  "bin_power data j = psd (data ! (2 * j)) (data ! (2 * j + 1))"



text \<open>
  The loop invariant of \<open>fft_bit_reverse\<close>, relative to the buffer \<open>w0\<close> at entry: before
  the iteration for \<open>i\<close>, exactly the samples whose index or whose reversed index is
  below \<open>i\<close> have been exchanged with their partner.
\<close>

definition rev_inv :: "nat \<Rightarrow> 'f list \<Rightarrow> nat \<Rightarrow> 'f list \<Rightarrow> bool" where
  "rev_inv b w0 i w \<longleftrightarrow>
     length w = length w0 \<and>
     (\<forall>j<2 ^ b. sample w j =
        (if j < i \<or> bit_reversal b j < i then sample w0 (bit_reversal b j) else sample w0 j))"

text \<open>The values of a sum of squares: a finite value that is not negative, or \<open>INFINITY\<close>.\<close>

definition nonneg_value :: "cfloat \<Rightarrow> bool" where
  "nonneg_value v \<longleftrightarrow> (case v of Finite r \<Rightarrow> 0 \<le> r | INFINITY \<Rightarrow> True | _ \<Rightarrow> False)"

text \<open>
  What the scan has established when it stops, started at bin \<open>i\<close> with the pair \<open>acc\<close> of
  running maximum and index: the result bounds the running maximum and all bins from \<open>i\<close>
  on, and either nothing changed or the result is the first bin from \<open>i\<close> on that holds
  the maximum, strictly above all bins before it.
\<close>

definition scan_post :: "real list \<Rightarrow> nat \<Rightarrow> nat \<Rightarrow> cfloat \<times> u32 \<Rightarrow> cfloat \<times> u32 \<Rightarrow> bool" where
  "scan_post d n i acc res \<longleftrightarrow>
     rank (fst acc) \<le> rank (fst res) \<and>
     (\<forall>j. i \<le> j \<and> j < n \<longrightarrow> rank (bin_power d j) \<le> rank (fst res)) \<and>
     (res = acc \<or>
      (rank (fst acc) < rank (fst res) \<and> i \<le> unat (snd res) \<and> unat (snd res) < n \<and>
       bin_power d (unat (snd res)) = fst res \<and>
       (\<forall>j. i \<le> j \<and> j < unat (snd res) \<longrightarrow> rank (bin_power d j) < rank (fst res))))"





text \<open>A small configuration on which the model is run: two bins, a software transform that
  leaves the buffer as it is, and four words of device memory.\<close>

definition radar0 :: radar where
  "radar0 = \<lparr>RADAR_N = 2, RADAR_LOGN = 1, RADAR_fs = 1000, RADAR_c = 300000000, RADAR_alpha = 5\<rparr>"

definition fftHW0 :: fftHW where
  "fftHW0 = \<lparr>fftHW_len = 2, fftHW_log_len = 1, fftHW_lmem = [0, 0, 0, 0]\<rparr>"

definition fft_id :: fft_fn where
  "fft_id data n logn sign = data"

text \<open>Two devices: one that reports success and leaves the memory as it is, one that
  reports the status \<open>-1\<close>.\<close>

definition ioctl_ok :: ioctl_fn where
  "ioctl_ok m = (0, m)"

definition ioctl_fail :: ioctl_fn where
  "ioctl_fail m = (- 1, m)"



section \<open>Bit reversal\<close>

subsection \<open>\<open>fft_rev\<close> reverses the 32 bits of its argument\<close>

lemma fft_rev_step_bits:
  fixes v r :: u32
  assumes "0 < k" "j < 32"
  shows "(if j < k - 1 then bit (drop_bit 1 v) (k - 1 - 1 - j)
          else bit (push_bit 1 r OR (v AND 1)) (j - (k - 1))) =
         (if j < k then bit v (k - 1 - j) else bit r (j - k))"
proof -
  consider "j < k - 1" | "j = k - 1" | "k \<le> j" using assms by linarith
  then show ?thesis
  proof cases
    case 1
    then have "j < k" and "Suc (k - 1 - 1 - j) = k - 1 - j" by simp_all
    with 1 show ?thesis by (simp add: bit_drop_bit_eq)
  next
    case 2
    with assms show ?thesis by (simp add: bit_0 even_or_iff even_and_iff)
  next
    case 3
    with assms have *: "j - (k - Suc 0) = Suc (j - k)" "\<not> j < k - Suc 0" "\<not> j < k" "j \<noteq> k - Suc 0"
      by simp_all
    have "Suc (j - k) < 32" using 3 assms by simp
    then have "bit (r * 2) (Suc (j - k)) = bit r (j - k)"
      using bit_double_Suc_iff [of r "j - k"] by (simp add: mult.commute)
    then show ?thesis using * by (simp add: bit_simps)
  qed
qed

lemma fft_rev_loop_bit:
  "0 \<le> s \<Longrightarrow> s \<le> 31 \<Longrightarrow> unat v < 2 ^ nat s \<Longrightarrow>
   bit (case fft_rev_loop v r s of (r', s') \<Rightarrow> push_bit (nat s') r') j \<longleftrightarrow>
     j < 32 \<and> (if j < nat s then bit v (nat s - 1 - j) else bit r (j - nat s))"
proof (induction v r s rule: fft_rev_loop.induct)
  case (1 v r s)
  show ?case
  proof (cases "v = 0")
    case True
    then show ?thesis
      by (subst fft_rev_loop.simps) (auto simp add: bit_push_bit_iff dest: bit_imp_le_length)
  next
    case False
    with "1.prems" have s: "0 < s"
      by (cases "s = 0") (auto simp: unat_eq_0)
    from "1.prems" have "unat v < 2 ^ nat s"
      by simp
    then have "unat v div 2 < 2 ^ (nat s - 1)"
      using s by (cases "nat s") auto
    then have "unat (drop_bit 1 v) < 2 ^ nat (s - 1)"
      using s "1.prems" by (simp add: drop_bit_eq_div unat_div nat_diff_distrib)
    with "1.IH" [OF False] s "1.prems"
    have IH: "bit (case fft_rev_loop (drop_bit 1 v) (push_bit 1 r OR (v AND 1)) (s - 1) of
                     (r', s') \<Rightarrow> push_bit (nat s') r') j \<longleftrightarrow>
       j < 32 \<and> (if j < nat (s - 1) then bit (drop_bit 1 v) (nat (s - 1) - 1 - j)
                  else bit (push_bit 1 r OR (v AND 1)) (j - nat (s - 1)))"
      by simp
    have unfold: "fft_rev_loop v r s =
        fft_rev_loop (drop_bit 1 v) (push_bit 1 r OR (v AND 1)) (s - 1)"
      using False by (subst fft_rev_loop.simps) simp
    have k: "nat (s - 1) = nat s - 1" "0 < nat s" using s by simp_all
    show ?thesis
      unfolding unfold IH k
      using fft_rev_step_bits [OF k(2), of j v r] by blast
  qed
qed

lemma fft_rev_eq_word_reverse: "fft_rev v = word_reverse v"
proof (rule bit_word_eqI)
  fix j assume j: "j < LENGTH(32)"
  have "unat (drop_bit 1 v) < 2 ^ nat 31"
  proof -
    have "unat v < 2 ^ 32" using unsigned_less [of v] by simp
    then show ?thesis by (simp add: drop_bit_eq_div unat_div)
  qed
  then have "bit (fft_rev v) j \<longleftrightarrow>
     j < 32 \<and> (if j < nat 31 then bit (drop_bit 1 v) (nat 31 - 1 - j) else bit v (j - nat 31))"
    unfolding fft_rev_def by (intro fft_rev_loop_bit) simp_all
  also have "\<dots> \<longleftrightarrow> bit (word_reverse v) j"
  proof (cases "j < 31")
    case True
    then have "1 + (30 - j) = 31 - j" by simp
    with True j show ?thesis
      by (simp add: bit_word_reverse_iff bit_drop_bit_eq del: One_nat_def)
  next
    case False
    with j have "j = 31" by simp
    then show ?thesis by (simp add: bit_word_reverse_iff)
  qed
  finally show "bit (fft_rev v) j \<longleftrightarrow> bit (word_reverse v) j" .
qed

subsection \<open>The \<open>b\<close>-bit reversal of an index\<close>

lemma bit_reversal_less: "bit_reversal b i < 2 ^ b"
proof (induction b arbitrary: i)
  case 0
  show ?case by simp
next
  case (Suc b)
  consider "i mod 2 = 0" | "i mod 2 = 1" by linarith
  then show ?case using Suc [of "i div 2"] by cases simp_all
qed

lemma bit_bit_reversal: "bit (bit_reversal b i) j \<longleftrightarrow> j < b \<and> bit i (b - 1 - j)"
proof (induction b arbitrary: i j)
  case 0
  show ?case by simp
next
  case (Suc b)
  let ?hi = "push_bit b (take_bit 1 i)" and ?lo = "bit_reversal b (drop_bit 1 i)"
  have eq: "bit_reversal (Suc b) i = ?hi + ?lo"
    by (simp add: push_bit_eq_mult take_bit_eq_mod drop_bit_eq_div)
  have hi: "bit ?hi n \<longleftrightarrow> n = b \<and> bit i 0" for n
    by (auto simp: bit_push_bit_iff bit_take_bit_iff bit_0)
  have lo: "bit ?lo n \<longleftrightarrow> n < b \<and> bit i (b - n)" for n
  proof (cases "n < b")
    case True
    then have "Suc (b - 1 - n) = b - n" by simp
    with True show ?thesis by (simp add: Suc.IH bit_drop_bit_eq)
  next
    case False
    then show ?thesis by (simp add: Suc.IH)
  qed
  have "bit (?hi + ?lo) j \<longleftrightarrow> bit ?hi j \<or> bit ?lo j"
    by (rule bit_disjunctive_add_iff) (simp only: hi lo, auto)
  also have "\<dots> \<longleftrightarrow> j < Suc b \<and> bit i (Suc b - 1 - j)"
    by (simp only: hi lo) (auto simp: less_Suc_eq)
  finally show ?case unfolding eq .
qed

lemma bit_reversal_involution:
  assumes "i < 2 ^ b"
  shows "bit_reversal b (bit_reversal b i) = i"
proof (rule bit_eqI)
  fix j
  have hi: "\<not> bit i j" if "b \<le> j"
  proof -
    have "(2::nat) ^ b \<le> 2 ^ j" using that by simp
    with assms have "i < 2 ^ j" by linarith
    then have "i div 2 ^ j = 0" by simp
    then show ?thesis by (simp add: bit_iff_odd)
  qed
  show "bit (bit_reversal b (bit_reversal b i)) j \<longleftrightarrow> bit i j"
  proof (cases "j < b")
    case True
    then have "b - 1 - j < b" "b - 1 - (b - 1 - j) = j" by simp_all
    with True show ?thesis by (simp add: bit_bit_reversal)
  next
    case False
    with hi show ?thesis by (simp add: bit_bit_reversal)
  qed
qed

lemma unat_shifted_fft_rev:
  assumes "b \<le> 32"
  shows "unat (drop_bit (32 - b) (fft_rev i)) = bit_reversal b (unat i)"
proof (rule bit_eqI)
  fix j
  show "bit (unat (drop_bit (32 - b) (fft_rev i))) j \<longleftrightarrow> bit (bit_reversal b (unat i)) j"
  proof (cases "j < b")
    case True
    with assms have "32 + j - b < 32" "32 - b + j < 32" "31 - (32 - b + j) = b - 1 - j"
      by simp_all
    with True show ?thesis
      by (simp add: fft_rev_eq_word_reverse bit_unsigned_iff bit_drop_bit_eq
          bit_word_reverse_iff bit_bit_reversal)
  next
    case False
    then have "\<not> 32 + j - b < 32" "\<not> 32 - b + j < 32" using assms by simp_all
    with False show ?thesis
      by (simp add: fft_rev_eq_word_reverse bit_unsigned_iff bit_drop_bit_eq
          bit_word_reverse_iff bit_bit_reversal)
  qed
qed

subsection \<open>The loop of \<open>fft_bit_reverse\<close>\<close>

lemma unat_succ_below: "i < n \<Longrightarrow> unat (i + 1) = Suc (unat i)" for i n :: u32
proof -
  assume "i < n"
  then have "unat i < unat n" by (simp add: word_less_nat_alt)
  moreover have "unat n < 2 ^ 32" using unsigned_less [of n] by simp
  ultimately have "unat i + 1 < 2 ^ 32" by simp
  then show ?thesis by (simp add: unat_word_ariths)
qed

lemma unat_double:
  "unat i < 2 ^ 31 \<Longrightarrow> unat (2 * i) = 2 * unat i \<and> unat (2 * i + 1) = 2 * unat i + 1" for i :: u32
  by (simp add: unat_word_ariths)

lemma swap_samples_sample:
  fixes i r :: u32
  assumes "unat i < N" "unat r < N" "i \<noteq> r" "N \<le> 2 ^ 31" "length w = 2 * N"
  shows "\<exists>w'. swap_samples w i r = Inr w' \<and> length w' = length w \<and>
     (\<forall>j<N. sample w' j = (if j = unat i then sample w (unat r)
                             else if j = unat r then sample w (unat i) else sample w j))"
proof -
  from assms have i: "unat (2 * i) = 2 * unat i" "unat (2 * i + 1) = 2 * unat i + 1"
    and r: "unat (2 * r) = 2 * unat r" "unat (2 * r + 1) = 2 * unat r + 1"
    using unat_double [of i] unat_double [of r] by simp_all
  from assms have ne: "unat i \<noteq> unat r" by (simp add: word_unat_eq_iff)
  show ?thesis
    unfolding swap_samples_def i r Let_def sample_def
    using assms(1,2,5) ne by (auto simp: nth_list_update)
qed


lemma rev_inv_skip:
  assumes inv: "rev_inv b w0 i w" and i: "i < 2 ^ b" and le: "bit_reversal b i \<le> i"
  shows "rev_inv b w0 (Suc i) w"
  unfolding rev_inv_def
proof (intro conjI allI impI)
  show "length w = length w0" using inv by (simp add: rev_inv_def)
next
  fix j :: nat assume j: "j < 2 ^ b"
  let ?r = "bit_reversal b"
  from inv j have old: "sample w j = (if j < i \<or> ?r j < i then sample w0 (?r j) else sample w0 j)"
    by (simp add: rev_inv_def)
  have "?r j \<noteq> i \<or> j \<le> i"
  proof (cases "?r j = i")
    case True
    then have "?r i = j" using bit_reversal_involution [OF j] by simp
    with le show ?thesis by simp
  qed simp
  moreover have "j = i \<Longrightarrow> \<not> ?r j < i \<Longrightarrow> ?r j = j" using le by simp
  ultimately show "sample w j = (if j < Suc i \<or> ?r j < Suc i then sample w0 (?r j) else sample w0 j)"
    unfolding old by (auto simp: less_Suc_eq)
qed

lemma rev_inv_swap:
  assumes inv: "rev_inv b w0 i w" and i: "i < 2 ^ b" and lt: "i < bit_reversal b i"
    and len: "length w' = length w"
    and sw: "\<forall>j<2 ^ b. sample w' j = (if j = i then sample w (bit_reversal b i)
                else if j = bit_reversal b i then sample w i else sample w j)"
  shows "rev_inv b w0 (Suc i) w'"
  unfolding rev_inv_def
proof (intro conjI allI impI)
  show "length w' = length w0" using inv len by (simp add: rev_inv_def)
next
  fix j :: nat assume j: "j < 2 ^ b"
  let ?r = "bit_reversal b"
  have ri: "?r i < 2 ^ b" by (rule bit_reversal_less)
  have rri: "?r (?r i) = i" by (rule bit_reversal_involution [OF i])
  have old: "sample w k = (if k < i \<or> ?r k < i then sample w0 (?r k) else sample w0 k)"
    if "k < 2 ^ b" for k
    using inv that by (simp add: rev_inv_def)
  have inj: "?r j = i \<longleftrightarrow> j = ?r i"
    using bit_reversal_involution [OF j] rri by auto
  consider "j = i" | "j = ?r i" "j \<noteq> i" | "j \<noteq> i" "j \<noteq> ?r i" by blast
  then show "sample w' j = (if j < Suc i \<or> ?r j < Suc i then sample w0 (?r j) else sample w0 j)"
  proof cases
    case 1
    then have "sample w' j = sample w (?r i)" using sw j by simp
    also have "\<dots> = sample w0 (?r i)" using old [OF ri] lt rri by simp
    finally show ?thesis using 1 by simp
  next
    case 2
    then have "sample w' j = sample w i" using sw j by simp
    also have "\<dots> = sample w0 i" using old [OF i] lt by simp
    finally show ?thesis using 2 rri by simp
  next
    case 3
    then have "sample w' j = sample w j" using sw j by simp
    also have "\<dots> = (if j < i \<or> ?r j < i then sample w0 (?r j) else sample w0 j)"
      by (rule old [OF j])
    finally show ?thesis using 3 inj by (auto simp: less_Suc_eq)
  qed
qed


lemma fft_bit_reverse_loop_inv:
  assumes "b \<le> 31" "unat n = 2 ^ b" "unat shift = 32 - b" "length w0 = 2 * 2 ^ b"
    and "rev_inv b w0 (unat i) w" "unat i \<le> 2 ^ b"
  shows "\<exists>w'. fft_bit_reverse_loop w n shift i = Inr w' \<and> rev_inv b w0 (2 ^ b) w'"
  using assms
proof (induction w n shift i rule: fft_bit_reverse_loop.induct)
  case (1 w n shift i)
  let ?r = "drop_bit (unat shift) (fft_rev i)"
  show ?case
  proof (cases "i < n")
    case False
    with "1.prems" have "unat i = 2 ^ b" by (simp add: word_less_nat_alt)
    with "1.prems" False show ?thesis
      by (subst fft_bit_reverse_loop.simps) simp
  next
    case True
    with "1.prems" have i: "unat i < 2 ^ b" by (simp add: word_less_nat_alt)
    have r: "unat ?r = bit_reversal b (unat i)"
      using "1.prems" by (simp add: unat_shifted_fft_rev)
    have suc: "unat (i + 1) = Suc (unat i)" by (rule unat_succ_below [OF True])
    have pow: "(2::nat) ^ b \<le> 2 ^ 31" using "1.prems"(1) by (intro power_increasing) simp_all
    show ?thesis
    proof (cases "i < ?r")
      case False
      then have "bit_reversal b (unat i) \<le> unat i"
        using r by (simp add: word_less_nat_alt)
      then have "rev_inv b w0 (unat (i + 1)) w"
        unfolding suc using "1.prems" i by (intro rev_inv_skip) simp_all
      with "1.IH"(2) [OF True refl False] "1.prems" i suc
      have "\<exists>w'. fft_bit_reverse_loop w n shift (i + 1) = Inr w' \<and> rev_inv b w0 (2 ^ b) w'"
        by simp
      then show ?thesis
        using True False by (subst fft_bit_reverse_loop.simps) simp
    next
      case lt: True
      then have lt': "unat i < bit_reversal b (unat i)"
        using r by (simp add: word_less_nat_alt)
      have rlt: "unat ?r < 2 ^ b" unfolding r by (rule bit_reversal_less)
      have len: "length w = 2 * 2 ^ b" using "1.prems" by (simp add: rev_inv_def)
      from lt have "i \<noteq> ?r" by auto
      from swap_samples_sample [OF i rlt this pow len]
      obtain w1 where w1: "swap_samples w i ?r = Inr w1" "length w1 = length w"
        and sw: "\<forall>j<2 ^ b. sample w1 j = (if j = unat i then sample w (unat ?r)
                             else if j = unat ?r then sample w (unat i) else sample w j)"
        by blast
      have "rev_inv b w0 (unat (i + 1)) w1"
        unfolding suc
        using "1.prems"(5) i lt' w1(2) sw [unfolded r] by (rule rev_inv_swap)
      with "1.IH"(1) [OF True refl lt w1(1)] "1.prems" i suc
      have "\<exists>w'. fft_bit_reverse_loop w1 n shift (i + 1) = Inr w' \<and> rev_inv b w0 (2 ^ b) w'"
        by simp
      then show ?thesis
        using True lt w1(1) by (subst fft_bit_reverse_loop.simps) simp
    qed
  qed
qed

lemma unat_shift:
  fixes bits :: u32
  assumes "unat bits \<le> 31"
  shows "unat (31 - bits + 1) = 32 - unat bits"
proof -
  have "31 - bits + 1 = 32 - bits" by simp
  moreover have "bits \<le> 32" using assms by (simp add: word_le_nat_alt)
  ultimately show ?thesis by (simp add: unat_sub)
qed

lemma unat_shift':
  fixes bits :: u32
  assumes "unat bits \<le> 31"
  shows "unat (32 - bits) = 32 - unat bits"
  using unat_shift [OF assms] by simp

lemma fft_bit_reverse_samples:
  fixes w :: "'f list"
  assumes "unat bits \<le> 31" "unat n = 2 ^ unat bits" "length w = 2 * unat n"
  shows "\<exists>w'. fft_bit_reverse w n bits = Inr w' \<and> length w' = length w \<and>
     (\<forall>j<unat n. sample w' j = sample w (bit_reversal (unat bits) j))"
proof -
  have "rev_inv (unat bits) w (unat (0 :: u32)) w"
    by (simp add: rev_inv_def)
  with assms have "\<exists>w'. fft_bit_reverse_loop w n (31 - bits + 1) 0 = Inr w' \<and>
      rev_inv (unat bits) w (2 ^ unat bits) w'"
    by (intro fft_bit_reverse_loop_inv) (simp_all add: unat_shift')
  then show ?thesis
    using assms by (auto simp: fft_bit_reverse_def rev_inv_def)
qed



lemma list_eq_samples:
  assumes "length a = 2 * N" "length b = 2 * N" "\<forall>j<N. sample a j = sample b j"
  shows "a = b"
proof (rule nth_equalityI)
  show "length a = length b" using assms by simp
next
  fix k assume "k < length a"
  with assms have j: "k div 2 < N" by simp
  with assms have eq: "a ! (2 * (k div 2)) = b ! (2 * (k div 2))"
      "a ! (2 * (k div 2) + 1) = b ! (2 * (k div 2) + 1)"
    by (simp_all add: sample_def)
  show "a ! k = b ! k"
  proof (cases "even k")
    case True
    then have "2 * (k div 2) = k" by simp
    with eq(1) show ?thesis by simp
  next
    case False
    then have "2 * (k div 2) + 1 = k" by (simp add: odd_two_times_div_two_succ)
    with eq(2) show ?thesis by simp
  qed
qed

text \<open>
  C6. For a buffer of \<open>n = 2 ^ bits\<close> interleaved complex samples, \<open>fft_bit_reverse\<close>
  returns a buffer of the same length in which the sample at every index \<open>j\<close> is the
  original sample at the \<open>bits\<close>-wide bit reversal of \<open>j\<close>; the index \<open>r\<close> the loop computes
  for \<open>i\<close> is that bit reversal.
\<close>

theorem fft_bit_reverse_permutation:
  fixes w :: "'f list"
  assumes "unat bits \<le> 31" "unat n = 2 ^ unat bits" "length w = 2 * unat n"
  shows "(\<forall>i. i < n \<longrightarrow>
            unat (drop_bit (unat (31 - bits + 1)) (fft_rev i)) = bit_reversal (unat bits) (unat i)) \<and>
         (\<exists>w'. fft_bit_reverse w n bits = Inr w' \<and> length w' = length w \<and>
            (\<forall>j<unat n. sample w' j = sample w (bit_reversal (unat bits) j)))"
  using assms fft_bit_reverse_samples [OF assms]
  by (simp add: unat_shift' unat_shifted_fft_rev)

theorem fft_bit_reverse_permutation_witness:
  "unat (2 :: u32) \<le> 31 \<and> unat (4 :: u32) = 2 ^ unat (2 :: u32) \<and>
   length [10, 11, 20, 21, 30, 31, 40, 41 :: nat] = 2 * unat (4 :: u32) \<and>
   fft_bit_reverse [10, 11, 20, 21, 30, 31, 40, 41 :: nat] 4 2 = Inr [10, 11, 30, 31, 20, 21, 40, 41] \<and>
   bit_reversal 2 1 = 2 \<and>
   sample [10, 11, 30, 31, 20, 21, 40, 41 :: nat] 1 =
     sample [10, 11, 20, 21, 30, 31, 40, 41] (bit_reversal 2 1)"
proof -
  have ev: "fft_bit_reverse [10, 11, 20, 21, 30, 31, 40, 41 :: nat] 4 2 =
      Inr [10, 11, 30, 31, 20, 21, 40, 41]"
    by (simp add: fft_bit_reverse_def fft_bit_reverse_loop.simps swap_samples_def
        fft_rev_def fft_rev_loop.simps)
  have r: "bit_reversal 2 1 = 2"
    by (simp add: numeral_2_eq_2)
  from fft_bit_reverse_permutation [of 2 4 "[10, 11, 20, 21, 30, 31, 40, 41 :: nat]"]
  show ?thesis unfolding ev r by (simp add: sample_def)
qed

text \<open>
  C5. Applying \<open>fft_bit_reverse\<close> twice to a buffer of \<open>n = 2 ^ bits\<close> interleaved complex
  samples gives back the buffer it started from.
\<close>

theorem fft_bit_reverse_involution:
  fixes w :: "'f list"
  assumes "unat bits \<le> 31" "unat n = 2 ^ unat bits" "length w = 2 * unat n"
  shows "\<exists>w'. fft_bit_reverse w n bits = Inr w' \<and> fft_bit_reverse w' n bits = Inr w"
proof -
  let ?r = "bit_reversal (unat bits)"
  from fft_bit_reverse_samples [OF assms]
  obtain w' where w': "fft_bit_reverse w n bits = Inr w'" "length w' = length w"
    "\<forall>j<unat n. sample w' j = sample w (?r j)"
    by blast
  from w'(2) assms have len': "length w' = 2 * unat n" by simp
  from fft_bit_reverse_samples [OF assms(1,2) len']
  obtain w'' where w'': "fft_bit_reverse w' n bits = Inr w''" "length w'' = length w'"
    "\<forall>j<unat n. sample w'' j = sample w' (?r j)"
    by blast
  have "sample w'' j = sample w j" if "j < unat n" for j
  proof -
    have "?r j < unat n" using assms(2) by (simp add: bit_reversal_less)
    moreover have "?r (?r j) = j" using that assms(2) by (simp add: bit_reversal_involution)
    ultimately show ?thesis using w'(3) w''(3) that by simp
  qed
  then have "w'' = w"
    using w''(2) len' assms(3) by (intro list_eq_samples [of _ "unat n"]) simp_all
  with w' w'' show ?thesis by simp
qed

theorem fft_bit_reverse_involution_witness:
  "unat (3 :: u32) \<le> 31 \<and> unat (8 :: u32) = 2 ^ unat (3 :: u32) \<and>
   length [0, 1, 2, 3, 4, 5, 6, 7, 8, 9, 10, 11, 12, 13, 14, 15 :: int] = 2 * unat (8 :: u32) \<and>
   fft_bit_reverse [0, 1, 2, 3, 4, 5, 6, 7, 8, 9, 10, 11, 12, 13, 14, 15 :: int] 8 3 =
     Inr [0, 1, 8, 9, 4, 5, 12, 13, 2, 3, 10, 11, 6, 7, 14, 15] \<and>
   fft_bit_reverse [0, 1, 8, 9, 4, 5, 12, 13, 2, 3, 10, 11, 6, 7, 14, 15 :: int] 8 3 =
     Inr [0, 1, 2, 3, 4, 5, 6, 7, 8, 9, 10, 11, 12, 13, 14, 15]"
proof -
  have ev: "fft_bit_reverse [0, 1, 2, 3, 4, 5, 6, 7, 8, 9, 10, 11, 12, 13, 14, 15 :: int] 8 3 =
     Inr [0, 1, 8, 9, 4, 5, 12, 13, 2, 3, 10, 11, 6, 7, 14, 15]"
    by (simp add: fft_bit_reverse_def fft_bit_reverse_loop.simps swap_samples_def
        fft_rev_def fft_rev_loop.simps)
  from fft_bit_reverse_involution [of 3 8 "[0, 1, 2, 3, 4, 5, 6, 7, 8, 9, 10, 11, 12, 13, 14, 15 :: int]"]
  show ?thesis unfolding ev by simp
qed

section \<open>Floating point\<close>

subsection \<open>Order\<close>

lemma fgt_rank: "fgt a b \<longleftrightarrow> a \<noteq> NAN \<and> b \<noteq> NAN \<and> rank b < rank a"
  by (cases a; cases b) simp_all

lemma rank_eq_iff: "rank a = rank b \<longleftrightarrow> a = b"
  by (cases a; cases b) simp_all

lemma nonneg_value_simps:
  "nonneg_value (Finite r) \<longleftrightarrow> 0 \<le> r" "nonneg_value INFINITY"
  "\<not> nonneg_value NEG_INFINITY" "\<not> nonneg_value NAN"
  by (simp_all add: nonneg_value_def)

lemma nonneg_value_not_nan: "nonneg_value v \<Longrightarrow> v \<noteq> NAN"
  by (auto simp: nonneg_value_def)

lemma nonneg_value_rank: "nonneg_value v \<Longrightarrow> rank (Finite 0) \<le> rank v"
  by (cases v) (simp_all add: nonneg_value_def)

subsection \<open>Rounding keeps the sign\<close>

lemma pow2_pos: "0 < pow2 e"
  by (simp add: pow2_def)

lemma round_even_nonneg: "0 \<le> y \<Longrightarrow> 0 \<le> round_even y"
  by (auto simp: round_even_def Let_def)

lemma round_bin_nonneg: "0 \<le> x \<Longrightarrow> 0 \<le> round_bin p qmin x"
  using pow2_pos
  by (auto simp: round_bin_def Let_def intro!: mult_nonneg_nonneg round_even_nonneg
      simp: less_imp_le)

lemma round_bin_zero: "round_bin p qmin 0 = 0"
  by (simp add: round_bin_def)

lemma fround_nonneg: "0 \<le> x \<Longrightarrow> nonneg_value (fround p qmin emax x)"
proof -
  assume "0 \<le> x"
  then have r: "0 \<le> round_bin p qmin x" by (rule round_bin_nonneg)
  have "\<not> round_bin p qmin x \<le> - pow2 (emax + 1)"
    using r pow2_pos [of "emax + 1"] by linarith
  with r show ?thesis by (simp add: fround_def Let_def nonneg_value_def)
qed

lemma fround_zero: "0 \<le> emax + 1 \<Longrightarrow> fround p qmin emax 0 = Finite 0"
  using pow2_pos [of "emax + 1"] by (simp add: fround_def round_bin_zero Let_def not_le)

lemma f32_zero: "f32 0 = Finite 0" and f64_zero: "f64 0 = Finite 0"
  by (simp_all add: f32_def f64_def fround_zero)

lemma f32_nonneg: "0 \<le> x \<Longrightarrow> nonneg_value (f32 x)"
  and f64_nonneg: "0 \<le> x \<Longrightarrow> nonneg_value (f64 x)"
  by (simp_all add: f32_def f64_def fround_nonneg)

lemma psd_nonneg: "nonneg_value (psd re im)"
proof -
  have sq: "nonneg_value (fmul f64 (Finite a) (Finite a))" for a
    by (simp add: f64_nonneg)
  have add: "nonneg_value (fadd f64 u v)" if "nonneg_value u" "nonneg_value v" for u v
    using that by (cases u; cases v) (simp_all add: nonneg_value_simps f64_nonneg)
  have quot: "nonneg_value (fdiv f64 u (Finite 100))" if "nonneg_value u" for u
    using that by (cases u) (simp_all add: nonneg_value_simps f64_nonneg)
  have cast: "nonneg_value (fcast f32 u)" if "nonneg_value u" for u
    using that by (cases u) (simp_all add: nonneg_value_simps f32_nonneg)
  show ?thesis
    unfolding psd_def by (intro cast quot add sq)
qed

lemma psd_zero: "psd 0 0 = Finite 0"
  by (simp add: psd_def f64_zero f32_zero)

lemma threshold_value: "threshold = Finite (7737125245533627 / 2 ^ 60)"
  by (simp add: threshold_def f64_def fround_def round_bin_def expo_def pow2_def round_even_def
      Let_def bit_length.simps)

subsection \<open>Exponents\<close>

lemma pow2_powr: "pow2 e = 2 powr (real_of_int e)"
  by (simp add: pow2_def powr_int)


lemma pow2_diff: "pow2 (a - b) = pow2 a / pow2 b"
  by (simp add: pow2_powr powr_diff)


lemma pow2_less_iff: "pow2 a < pow2 b \<longleftrightarrow> a < b"
  by (simp add: pow2_powr)

lemma pow2_le_iff: "pow2 a \<le> pow2 b \<longleftrightarrow> a \<le> b"
  by (simp add: pow2_powr)

lemma pow2_nonneg_int: "0 \<le> e \<Longrightarrow> pow2 e = of_int (2 ^ nat e)"
  by (simp add: pow2_def)

lemma bit_length_bounds:
  "0 < n \<Longrightarrow> 1 \<le> bit_length n \<and> 2 ^ nat (bit_length n - 1) \<le> n \<and> n < 2 ^ nat (bit_length n)"
proof (induction n rule: bit_length.induct)
  case (1 n)
  show ?case
  proof (cases "n = 1")
    case True
    then show ?thesis
      by (simp add: bit_length.simps [of 1] bit_length.simps [of 0])
  next
    case False
    with "1.prems" have pos: "0 < n div 2" by simp
    from "1.prems" have "\<not> n \<le> 0" by simp
    from "1.IH" [OF this pos]
    have IH: "1 \<le> bit_length (n div 2)" "2 ^ nat (bit_length (n div 2) - 1) \<le> n div 2"
      "n div 2 < 2 ^ nat (bit_length (n div 2))"
      by simp_all
    have eq: "bit_length n = 1 + bit_length (n div 2)"
      using "1.prems" by (subst bit_length.simps) simp
    let ?b = "bit_length (n div 2)"
    have n1: "nat (1 + ?b - 1) = Suc (nat (?b - 1))" using IH(1) by simp
    have n2: "nat (1 + ?b) = Suc (nat ?b)" using IH(1) by simp
    have "2 * 2 ^ nat (?b - 1) \<le> n" using IH(2) by linarith
    moreover have "n < 2 * 2 ^ nat ?b" using IH(3) by linarith
    ultimately show ?thesis
      unfolding eq n1 n2 using IH(1) by simp
  qed
qed

lemma expo_bounds:
  assumes "x \<noteq> 0"
  shows "pow2 (expo x) \<le> \<bar>x\<bar> \<and> \<bar>x\<bar> < pow2 (expo x + 1)"
proof (cases "1 \<le> \<bar>x\<bar>")
  case True
  let ?n = "\<lfloor>\<bar>x\<bar>\<rfloor>"
  from True have pos: "0 < ?n" by simp
  from bit_length_bounds [OF pos]
  have b: "1 \<le> bit_length ?n" "2 ^ nat (bit_length ?n - 1) \<le> ?n" "?n < 2 ^ nat (bit_length ?n)"
    by simp_all
  have e: "expo x = bit_length ?n - 1" using True by (simp add: expo_def)
  have "real_of_int (2 ^ nat (bit_length ?n - 1)) \<le> real_of_int ?n"
    using b(2) by (simp only: of_int_le_iff)
  also have "\<dots> \<le> \<bar>x\<bar>" by simp
  finally have lo: "pow2 (expo x) \<le> \<bar>x\<bar>"
    unfolding e using b(1) by (simp add: pow2_nonneg_int)
  from b(3) have "?n + 1 \<le> 2 ^ nat (bit_length ?n)" by simp
  then have "real_of_int (?n + 1) \<le> real_of_int (2 ^ nat (bit_length ?n))"
    by (simp only: of_int_le_iff)
  moreover have "\<bar>x\<bar> < real_of_int (?n + 1)" by simp
  ultimately have "\<bar>x\<bar> < real_of_int (2 ^ nat (bit_length ?n))" by linarith
  then have hi: "\<bar>x\<bar> < pow2 (expo x + 1)"
    unfolding e using b(1) by (simp add: pow2_nonneg_int)
  from lo hi show ?thesis ..
next
  case False
  let ?y = "1 / \<bar>x\<bar>"
  let ?m = "\<lceil>?y\<rceil> - 1"
  from False assms have y: "1 < ?y" by simp
  then have pos: "0 < ?m" by (simp add: less_ceiling_iff)
  from bit_length_bounds [OF pos]
  have b: "1 \<le> bit_length ?m" "2 ^ nat (bit_length ?m - 1) \<le> ?m" "?m < 2 ^ nat (bit_length ?m)"
    by simp_all
  have e: "expo x = - bit_length ?m" using False by (simp add: expo_def)
  have xpos: "0 < \<bar>x\<bar>" using assms by simp
  \<comment> \<open>the ceiling is at most the upper power of two\<close>
  from b(3) have "\<lceil>?y\<rceil> \<le> 2 ^ nat (bit_length ?m)" by simp
  then have "real_of_int \<lceil>?y\<rceil> \<le> real_of_int (2 ^ nat (bit_length ?m))"
    by (simp only: of_int_le_iff)
  with le_of_int_ceiling [of ?y] have "?y \<le> real_of_int (2 ^ nat (bit_length ?m))"
    by (rule order_trans)
  then have "?y \<le> 2 ^ nat (bit_length ?m)"
    by (simp only: of_int_power of_int_numeral)
  then have "1 / 2 ^ nat (bit_length ?m) \<le> \<bar>x\<bar>"
    using xpos by (simp add: field_simps)
  then have lo: "pow2 (expo x) \<le> \<bar>x\<bar>"
    unfolding e using b(1) by (simp add: pow2_def)
  \<comment> \<open>the value is above the lower power of two\<close>
  have "real_of_int \<lceil>?y\<rceil> - 1 < ?y" using ceiling_correct [of ?y] by linarith
  then have "real_of_int ?m < ?y" by simp
  moreover have "real_of_int (2 ^ nat (bit_length ?m - 1)) \<le> real_of_int ?m"
    using b(2) by (simp only: of_int_le_iff)
  ultimately have "2 ^ nat (bit_length ?m - 1) < ?y" by simp
  then have "\<bar>x\<bar> < 1 / 2 ^ nat (bit_length ?m - 1)"
    using xpos by (simp add: field_simps)
  moreover have "pow2 (- bit_length ?m + 1) = 1 / 2 ^ nat (bit_length ?m - 1)"
    using b(1) by (cases "bit_length ?m = 1") (simp_all add: pow2_def)
  ultimately have hi: "\<bar>x\<bar> < pow2 (expo x + 1)"
    unfolding e by simp
  from lo hi show ?thesis ..
qed


lemma expo_le: "x \<noteq> 0 \<Longrightarrow> \<bar>x\<bar> \<le> pow2 k \<Longrightarrow> expo x \<le> k"
proof -
  assume "x \<noteq> 0" "\<bar>x\<bar> \<le> pow2 k"
  with expo_bounds [of x] have "pow2 (expo x) \<le> pow2 k" by linarith
  then show ?thesis by (simp add: pow2_le_iff)
qed

subsection \<open>Rounding to the nearest integer\<close>

lemma round_even_cases: "round_even y = \<lfloor>y\<rfloor> \<or> round_even y = \<lfloor>y\<rfloor> + 1"
  by (simp add: round_even_def Let_def)

lemma round_even_of_int: "round_even (of_int n) = n"
  by (simp add: round_even_def Let_def)

lemma round_even_le_int: "y \<le> of_int n \<Longrightarrow> round_even y \<le> n"
proof -
  assume le: "y \<le> of_int n"
  show ?thesis
  proof (cases "y = of_int n")
    case True
    then show ?thesis by (simp add: round_even_of_int)
  next
    case False
    with le have "y < of_int n" by simp
    then have "\<lfloor>y\<rfloor> < n" by (simp add: floor_less_iff)
    with round_even_cases [of y] show ?thesis by auto
  qed
qed





subsection \<open>Rounding to a binary format\<close>

lemma round_bin_pos:
  "x \<noteq> 0 \<Longrightarrow> round_bin p qmin x =
     of_int (round_even (x / pow2 (max (expo x - int p + 1) qmin))) *
       pow2 (max (expo x - int p + 1) qmin)"
  by (simp add: round_bin_def Let_def)

lemma round_bin_le_pow2:
  assumes "0 < x" "x \<le> pow2 k" "qmin \<le> k" "1 \<le> p"
  shows "round_bin p qmin x \<le> pow2 k"
proof -
  let ?q = "max (expo x - int p + 1) qmin"
  from assms(1,2) have "expo x \<le> k" by (intro expo_le) simp_all
  with assms(3,4) have qk: "?q \<le> k" by simp
  let ?n = "(2 :: int) ^ nat (k - ?q)"
  have n: "of_int ?n = pow2 (k - ?q)" using qk by (simp add: pow2_nonneg_int)
  have "x / pow2 ?q \<le> pow2 k / pow2 ?q"
    using assms(2) pow2_pos [of ?q] by (simp add: divide_right_mono)
  then have "x / pow2 ?q \<le> of_int ?n" unfolding n pow2_diff .
  then have "round_even (x / pow2 ?q) \<le> ?n" by (rule round_even_le_int)
  then have "real_of_int (round_even (x / pow2 ?q)) \<le> real_of_int ?n"
    by (simp only: of_int_le_iff)
  then have "real_of_int (round_even (x / pow2 ?q)) * pow2 ?q \<le> real_of_int ?n * pow2 ?q"
    using pow2_pos [of ?q] by (simp add: mult_right_mono)
  also have "real_of_int ?n * pow2 ?q = pow2 k"
    unfolding n pow2_diff using pow2_pos [of ?q] by simp
  finally show ?thesis
    using assms(1) by (simp add: round_bin_pos)
qed



lemma fround_nonneg_eq:
  "0 \<le> x \<Longrightarrow> fround p qmin emax x =
     (if pow2 (emax + 1) \<le> round_bin p qmin x then INFINITY else Finite (round_bin p qmin x))"
  using round_bin_nonneg [of x p qmin] pow2_pos [of "emax + 1"]
  by (simp add: fround_def Let_def)



lemma fround_below:
  assumes "0 \<le> x" "x \<le> pow2 b" "qmin \<le> b" "b \<le> emax" "1 \<le> p"
  shows "\<exists>r. fround p qmin emax x = Finite r \<and> 0 \<le> r \<and> r \<le> pow2 b"
proof (cases "x = 0")
  case True
  then show ?thesis
    using pow2_pos [of b] pow2_pos [of "emax + 1"]
    by (simp add: fround_nonneg_eq round_bin_zero not_le less_imp_le)
next
  case False
  with assms(1) have x: "0 < x" by simp
  from round_bin_le_pow2 [OF x assms(2,3,5)]
  have hi: "round_bin p qmin x \<le> pow2 b" .
  have "pow2 b < pow2 (emax + 1)" using assms(4) by (simp add: pow2_less_iff)
  with hi have "\<not> pow2 (emax + 1) \<le> round_bin p qmin x" by linarith
  with assms(1) hi round_bin_nonneg [OF assms(1), of p qmin] show ?thesis
    by (simp add: fround_nonneg_eq)
qed







subsection \<open>The threshold is not a \<open>float\<close>\<close>






section \<open>Rounding in the distance expression\<close>

subsection \<open>Operations with a positive finite operand are monotone\<close>







subsection \<open>Accumulated rounding error\<close>












subsection \<open>The distance of line 180\<close>








subsection \<open>The distance is monotone in the index\<close>






section \<open>Peak scan, detection and distance\<close>

lemma scan_post_done: "n \<le> i \<Longrightarrow> scan_post d n i acc acc"
  by (auto simp: scan_post_def)

lemma scan_post_keep:
  assumes "rank (bin_power d i) \<le> rank (fst acc)" "scan_post d n (Suc i) acc res"
  shows "scan_post d n i acc res"
proof -
  have *: "i \<le> j \<longleftrightarrow> j = i \<or> Suc i \<le> j" for j by auto
  from assms show ?thesis
    unfolding scan_post_def * by (elim conjE disjE) (auto intro: order.strict_trans1)
qed

lemma scan_post_take:
  assumes "rank (fst acc) < rank (bin_power d i)" "i < n" "unat iw = i"
    and "scan_post d n (Suc i) (bin_power d i, iw) res"
  shows "scan_post d n i acc res"
proof -
  have *: "i \<le> j \<longleftrightarrow> j = i \<or> Suc i \<le> j" for j by auto
  from assms show ?thesis
    unfolding scan_post_def * by (elim conjE disjE) auto
qed

lemma bin_power_nonneg: "nonneg_value (bin_power d j)"
  by (simp add: bin_power_def psd_nonneg)

lemma peak_scan_post:
  assumes "2 * unat N \<le> length d" "unat N \<le> 2 ^ 31" "fst acc \<noteq> NAN"
  shows "\<exists>res. peak_scan d N i acc = Inr res \<and> scan_post d (unat N) (unat i) acc res"
  using assms
proof (induction d N i acc rule: peak_scan.induct)
  case (1 data N i max_psd max_index)
  show ?case
  proof (cases "i < N")
    case False
    then have "unat N \<le> unat i" by (simp add: word_less_nat_alt)
    then show ?thesis
      using False by (subst peak_scan.simps) (simp add: scan_post_done)
  next
    case True
    then have lt: "unat i < unat N" by (simp add: word_less_nat_alt)
    with "1.prems" have "unat i < 2 ^ 31" by simp
    then have idx: "unat (2 * i) = 2 * unat i" "unat (2 * i + 1) = 2 * unat i + 1"
      using unat_double [of i] by simp_all
    have inb: "unat (2 * i) < length data \<and> unat (2 * i + 1) < length data"
      using lt "1.prems" unfolding idx by simp
    have suc: "unat (i + 1) = Suc (unat i)" by (rule unat_succ_below [OF True])
    let ?temp = "psd (data ! unat (2 * i)) (data ! unat (2 * i + 1))"
    have temp: "?temp = bin_power data (unat i)"
      unfolding idx by (simp add: bin_power_def)
    have nn: "?temp \<noteq> NAN"
      unfolding temp by (rule nonneg_value_not_nan [OF bin_power_nonneg])
    from "1.prems"(3) have acc: "max_psd \<noteq> NAN" by simp
    show ?thesis
    proof (cases "fgt ?temp max_psd")
      case gt: True
      from nn have "fst (?temp, i) \<noteq> NAN" by simp
      from "1.IH"(1) [OF True inb refl gt "1.prems"(1,2) this]
      obtain res where res: "peak_scan data N (i + 1) (?temp, i) = Inr res"
        "scan_post data (unat N) (unat (i + 1)) (?temp, i) res"
        by blast
      from gt have gt': "rank (fst (max_psd, max_index)) < rank (bin_power data (unat i))"
        by (simp add: temp fgt_rank)
      have "scan_post data (unat N) (unat i) (max_psd, max_index) res"
        using gt' lt refl res(2) [unfolded suc temp] by (rule scan_post_take)
      then show ?thesis
        using True inb gt res(1) by (subst peak_scan.simps) (simp add: Let_def)
    next
      case le: False
      from "1.IH"(2) [OF True inb refl le "1.prems"]
      obtain res where res: "peak_scan data N (i + 1) (max_psd, max_index) = Inr res"
        "scan_post data (unat N) (unat (i + 1)) (max_psd, max_index) res"
        by blast
      from le nn acc have le': "rank (bin_power data (unat i)) \<le> rank (fst (max_psd, max_index))"
        by (simp add: temp fgt_rank not_less)
      have "scan_post data (unat N) (unat i) (max_psd, max_index) res"
        using le' res(2) [unfolded suc] by (rule scan_post_keep)
      then show ?thesis
        using True inb le res(1) by (subst peak_scan.simps) (simp add: Let_def)
    qed
  qed
qed

text \<open>The scan from its initial state, in terms of the comparison of the code.\<close>

lemma peak_scan_initial:
  assumes "2 * unat N \<le> length d" "unat N \<le> 2 ^ 31"
  shows "\<exists>m k. peak_scan d N 0 (Finite 0, 0) = Inr (m, k) \<and> nonneg_value m \<and>
      (\<forall>j<unat N. \<not> fgt (bin_power d j) m) \<and>
      ((m, k) = (Finite 0, 0) \<or>
       (fgt m (Finite 0) \<and> unat k < unat N \<and> bin_power d (unat k) = m \<and>
        (\<forall>j<unat k. fgt m (bin_power d j))))"
proof -
  from peak_scan_post [OF assms, of "(Finite 0, 0)" 0]
  obtain res where res: "peak_scan d N 0 (Finite 0, 0) = Inr res"
    and post: "scan_post d (unat N) 0 (Finite 0, 0) res"
    by auto
  obtain m k where mk: "res = (m, k)" by (cases res)
  from post have le: "\<forall>j<unat N. rank (bin_power d j) \<le> rank m"
    and cases: "(m, k) = (Finite 0, 0) \<or>
      (rank (Finite 0) < rank m \<and> unat k < unat N \<and> bin_power d (unat k) = m \<and>
       (\<forall>j<unat k. rank (bin_power d j) < rank m))"
    unfolding mk scan_post_def by auto
  from cases have nn: "nonneg_value m"
    using bin_power_nonneg [of d "unat k"] by (auto simp: nonneg_value_simps)
  then have m: "m \<noteq> NAN" by (rule nonneg_value_not_nan)
  have b: "bin_power d j \<noteq> NAN" for j
    by (rule nonneg_value_not_nan [OF bin_power_nonneg])
  from le have 1: "\<forall>j<unat N. \<not> fgt (bin_power d j) m"
    by (simp add: fgt_rank not_less)
  from cases have 2: "(m, k) = (Finite 0, 0) \<or>
       (fgt m (Finite 0) \<and> unat k < unat N \<and> bin_power d (unat k) = m \<and>
        (\<forall>j<unat k. fgt m (bin_power d j)))"
    using m b by (simp add: fgt_rank)
  from res mk nn 1 2 show ?thesis by blast
qed

lemma calculate_eq:
  assumes "transform_stage b p hw data = Inr (d, hw')"
  shows "calculate_peak_dist_from_fmcw b p hw data =
    (case peak_stage p d of Inl e \<Rightarrow> Inl e | Inr ret \<Rightarrow> Inr (d, hw', ret))"
  using assms by (simp add: calculate_peak_dist_from_fmcw_def)

lemma fgt_irrefl: "\<not> fgt a a"
  by (simp add: fgt_rank)



lemmas float_eval =
  f32_def f64_def fround_def round_bin_def expo_def pow2_def round_even_def Let_def
  bit_length.simps psd_def bin_power_def is_binary32_def





text \<open>
  C4. When every value of the transformed buffer is zero, the scan ends with maximum 0
  at index 0 and the function returns \<open>INFINITY\<close>.
\<close>

theorem zero_buffer_no_detection:
  assumes "transform_stage b p hw data = Inr (d, hw')"
    and "length d = 2 * unat (RADAR_N p)" "unat (RADAR_N p) \<le> 2 ^ 31"
    and "\<forall>x\<in>set d. x = 0"
  shows "peak_scan d (RADAR_N p) 0 (Finite 0, 0) = Inr (Finite 0, 0) \<and>
         calculate_peak_dist_from_fmcw b p hw data = Inr (d, hw', INFINITY)"
proof -
  let ?N = "RADAR_N p"
  have zero: "bin_power d j = Finite 0" if "j < unat ?N" for j
  proof -
    from that assms(2) have "2 * j < length d" "2 * j + 1 < length d" by simp_all
    then have "d ! (2 * j) \<in> set d" "d ! (2 * j + 1) \<in> set d" by simp_all
    with assms(4) have "d ! (2 * j) = 0" "d ! (2 * j + 1) = 0" by blast+
    then show ?thesis by (simp only: bin_power_def psd_zero)
  qed
  from peak_scan_initial [of ?N d] assms
  obtain m k where mk: "peak_scan d ?N 0 (Finite 0, 0) = Inr (m, k)"
    and cases: "(m, k) = (Finite 0, 0) \<or>
       (fgt m (Finite 0) \<and> unat k < unat ?N \<and> bin_power d (unat k) = m \<and>
        (\<forall>j<unat k. fgt m (bin_power d j)))"
    by auto
  from cases zero have "(m, k) = (Finite 0, 0)" by (auto simp: fgt_irrefl)
  with mk have scan: "peak_scan d ?N 0 (Finite 0, 0) = Inr (Finite 0, 0)" by simp
  then show ?thesis
    using assms(1) by (simp add: calculate_eq peak_stage_def threshold_value)
qed

theorem zero_buffer_no_detection_witness:
  "transform_stage (SW_FFT fft_id) radar0 fftHW0 [0, 0, 0, 0] = Inr ([0, 0, 0, 0], fftHW0) \<and>
   length [0, 0, 0, 0 :: real] = 2 * unat (RADAR_N radar0) \<and>
   unat (RADAR_N radar0) \<le> 2 ^ 31 \<and>
   peak_scan [0, 0, 0, 0] (RADAR_N radar0) 0 (Finite 0, 0) = Inr (Finite 0, 0) \<and>
   calculate_peak_dist_from_fmcw (SW_FFT fft_id) radar0 fftHW0 [0, 0, 0, 0] =
     Inr ([0, 0, 0, 0], fftHW0, INFINITY)"
proof -
  have t: "transform_stage (SW_FFT fft_id) radar0 fftHW0 [0, 0, 0, 0] = Inr ([0, 0, 0, 0], fftHW0)"
    by (simp add: transform_stage_def fft_id_def)
  have h: "length [0, 0, 0, 0 :: real] = 2 * unat (RADAR_N radar0)"
    "unat (RADAR_N radar0) \<le> 2 ^ 31" "\<forall>x\<in>set [0, 0, 0, 0 :: real]. x = 0"
    by (simp_all add: radar0_def)
  from zero_buffer_no_detection [OF t h] t h(1,2) show ?thesis by blast
qed

text \<open>
  C10. Whatever the function returns, a distance or \<open>INFINITY\<close>, the buffer it leaves is
  the buffer the transform left: scan, detection test and distance mapping write nothing
  to it. And it does return, with that buffer, whenever the transform left \<open>2 * RADAR_N\<close>
  values.
\<close>

theorem peak_stage_frame:
  "(calculate_peak_dist_from_fmcw b p hw data = Inr (d', hw', ret) \<longrightarrow>
      transform_stage b p hw data = Inr (d', hw') \<and> peak_stage p d' = Inr ret) \<and>
   (transform_stage b p hw data = Inr (d, hw1) \<and>
    length d = 2 * unat (RADAR_N p) \<and> unat (RADAR_N p) \<le> 2 ^ 31 \<longrightarrow>
      (\<exists>ret. calculate_peak_dist_from_fmcw b p hw data = Inr (d, hw1, ret)))"
proof -
  have frame: "transform_stage b p hw data = Inr (d', hw') \<and> peak_stage p d' = Inr ret"
    if "calculate_peak_dist_from_fmcw b p hw data = Inr (d', hw', ret)"
    using that
    by (auto simp: calculate_peak_dist_from_fmcw_def split: sum.splits prod.splits)
  have returns: "\<exists>ret. calculate_peak_dist_from_fmcw b p hw data = Inr (d, hw1, ret)"
    if a: "transform_stage b p hw data = Inr (d, hw1) \<and>
      length d = 2 * unat (RADAR_N p) \<and> unat (RADAR_N p) \<le> 2 ^ 31"
  proof -
    from a peak_scan_initial [of "RADAR_N p" d]
    obtain m k where "peak_scan d (RADAR_N p) 0 (Finite 0, 0) = Inr (m, k)"
      by auto
    with a show ?thesis
      by (simp add: calculate_eq peak_stage_def)
  qed
  from frame returns show ?thesis by blast
qed

theorem peak_stage_frame_witness:
  "calculate_peak_dist_from_fmcw (HW_FFT ioctl_ok) radar0 fftHW0 [0, 0, 1, 1 / 4] =
     Inr ([0, 0, 1, 1 / 4], fftHW0\<lparr>fftHW_lmem := [0, 0, 2 ^ 42, 2 ^ 40]\<rparr>, Finite 15000000512) \<and>
   transform_stage (HW_FFT ioctl_ok) radar0 fftHW0 [0, 0, 1, 1 / 4] =
     Inr ([0, 0, 1, 1 / 4], fftHW0\<lparr>fftHW_lmem := [0, 0, 2 ^ 42, 2 ^ 40]\<rparr>) \<and>
   length [0, 0, 1, 1 / 4 :: real] = 2 * unat (RADAR_N radar0) \<and>
   unat (RADAR_N radar0) \<le> 2 ^ 31 \<and>
   peak_stage radar0 [0, 0, 1, 1 / 4] = Inr (Finite 15000000512)"
proof -
  let ?hw = "fftHW0\<lparr>fftHW_lmem := [0, 0, 2 ^ 42, 2 ^ 40]\<rparr>"
  have t: "transform_stage (HW_FFT ioctl_ok) radar0 fftHW0 [0, 0, 1, 1 / 4] =
     Inr ([0, 0, 1, 1 / 4], ?hw)"
    by (simp add: transform_stage_def radar0_def fftHW0_def
        fft_bit_reverse_def fft_bit_reverse_loop.simps swap_samples_def
        fft_rev_def fft_rev_loop.simps cvt_in_loop.simps cvt_out_loop.simps fft_in_hw_def
        double_to_fixed64_def fixed64_to_double_def trunc_toward_zero_def ioctl_ok_def)
  have ps: "peak_stage radar0 [0, 0, 1, 1 / 4] = Inr (Finite 15000000512)"
    by (simp add: peak_stage_def radar0_def peak_scan.simps distance_def threshold_value
        float_eval)
  from t ps have c: "calculate_peak_dist_from_fmcw (HW_FFT ioctl_ok) radar0 fftHW0 [0, 0, 1, 1 / 4] =
     Inr ([0, 0, 1, 1 / 4], ?hw, Finite 15000000512)"
    by (simp add: calculate_peak_dist_from_fmcw_def)
  have h: "length [0, 0, 1, 1 / 4 :: real] = 2 * unat (RADAR_N radar0)"
    "unat (RADAR_N radar0) \<le> 2 ^ 31"
    by (simp_all add: radar0_def)
  from peak_stage_frame [of "HW_FFT ioctl_ok" radar0 fftHW0 "[0, 0, 1, 1 / 4]"
      "[0, 0, 1, 1 / 4]" ?hw "Finite 15000000512"] c
  have "transform_stage (HW_FFT ioctl_ok) radar0 fftHW0 [0, 0, 1, 1 / 4] =
      Inr ([0, 0, 1, 1 / 4], ?hw) \<and>
    peak_stage radar0 [0, 0, 1, 1 / 4] = Inr (Finite 15000000512)"
    by blast
  with c h show ?thesis by blast
qed

section \<open>The reported distance\<close>











section \<open>Fixed-point codec\<close>

lemma trunc_toward_zero_error: "\<bar>real_of_int (trunc_toward_zero y) - y\<bar> < 1"
  unfolding trunc_toward_zero_def by (simp; linarith)

lemma trunc_toward_zero_range:
  assumes "- (2 ^ 63) \<le> y" "y < 2 ^ 63"
  shows "- (2 ^ 63) \<le> trunc_toward_zero y \<and> trunc_toward_zero y < 2 ^ 63"
proof (cases "0 \<le> y")
  case True
  then have "0 \<le> \<lfloor>y\<rfloor>" by simp
  moreover have "\<lfloor>y\<rfloor> < 2 ^ 63" using assms(2) by (simp add: floor_less_iff)
  ultimately show ?thesis using True by (simp add: trunc_toward_zero_def)
next
  case False
  then have "\<lceil>y\<rceil> \<le> 0" by (simp add: ceiling_le_iff)
  moreover have "- (2 ^ 63) \<le> \<lceil>y\<rceil>" using assms(1) by (simp add: le_ceiling_iff)
  ultimately show ?thesis using False by (simp add: trunc_toward_zero_def)
qed

lemma fixed64_round_trip_value:
  assumes "- (2 ^ 63) \<le> x * 2 ^ b" "x * 2 ^ b < 2 ^ 63"
  shows "fixed64_to_double (double_to_fixed64 x b) b =
     real_of_int (trunc_toward_zero (x * 2 ^ b)) / 2 ^ b"
proof -
  from trunc_toward_zero_range [OF assms]
  have "signed_take_bit 63 (trunc_toward_zero (x * 2 ^ b)) = trunc_toward_zero (x * 2 ^ b)"
    by (intro signed_take_bit_int_eq_self) simp_all
  then show ?thesis
    by (simp add: fixed64_to_double_def double_to_fixed64_def sint_sbintrunc')
qed

lemma fixed64_round_trip_error:
  assumes "- (2 ^ 63) \<le> x * 2 ^ b" "x * 2 ^ b < 2 ^ 63"
  shows "\<bar>fixed64_to_double (double_to_fixed64 x b) b - x\<bar> < 1 / 2 ^ b"
proof -
  let ?t = "real_of_int (trunc_toward_zero (x * 2 ^ b))"
  have "?t / 2 ^ b - x = (?t - x * 2 ^ b) / 2 ^ b"
    by (simp add: field_simps)
  then have "\<bar>?t / 2 ^ b - x\<bar> = \<bar>?t - x * 2 ^ b\<bar> / 2 ^ b"
    by (simp add: abs_divide)
  also have "\<dots> < 1 / 2 ^ b"
    using trunc_toward_zero_error [of "x * 2 ^ b"] by (simp add: divide_strict_right_mono)
  finally show ?thesis
    unfolding fixed64_round_trip_value [OF assms] .
qed

lemma cvt_in_loop_result:
  assumes "0 \<le> j" "bound \<le> int (length data)" "bound \<le> int (length lmem)"
  shows "\<exists>m. cvt_in_loop data lmem bound j = Inr m \<and> length m = length lmem \<and>
     (\<forall>k<length lmem. m ! k =
        (if nat j \<le> k \<and> int k < bound then double_to_fixed64 (data ! k) 42 else lmem ! k))"
  using assms
proof (induction data lmem bound j rule: cvt_in_loop.induct)
  case (1 data lmem bound j)
  show ?case
  proof (cases "j < bound")
    case False
    then show ?thesis
      by (subst cvt_in_loop.simps) auto
  next
    case True
    with "1.prems" have inb: "0 \<le> j \<and> nat j < length data \<and> nat j < length lmem"
      by linarith
    let ?lmem = "lmem[nat j := double_to_fixed64 (data ! nat j) 42]"
    from "1.IH" [OF True inb] "1.prems"
    obtain m where m: "cvt_in_loop data ?lmem bound (j + 1) = Inr m" "length m = length lmem"
      and el: "\<forall>k<length lmem. m ! k =
        (if nat (j + 1) \<le> k \<and> int k < bound then double_to_fixed64 (data ! k) 42 else ?lmem ! k)"
      by auto
    have "m ! k = (if nat j \<le> k \<and> int k < bound then double_to_fixed64 (data ! k) 42 else lmem ! k)"
      if "k < length lmem" for k
    proof (cases "k = nat j")
      case True
      with el that inb \<open>j < bound\<close> show ?thesis by simp
    next
      case False
      then have "nat (j + 1) \<le> k \<longleftrightarrow> nat j \<le> k" using inb by auto
      with el that False show ?thesis by simp
    qed
    with m show ?thesis
      using True inb by (subst cvt_in_loop.simps) simp
  qed
qed

lemma cvt_out_loop_result:
  assumes "0 \<le> j" "bound \<le> int (length data)" "bound \<le> int (length lmem)"
  shows "\<exists>d. cvt_out_loop lmem data bound j = Inr d \<and> length d = length data \<and>
     (\<forall>k<length data. d ! k =
        (if nat j \<le> k \<and> int k < bound then fixed64_to_double (lmem ! k) 42 else data ! k))"
  using assms
proof (induction lmem data bound j rule: cvt_out_loop.induct)
  case (1 lmem data bound j)
  show ?case
  proof (cases "j < bound")
    case False
    then show ?thesis
      by (subst cvt_out_loop.simps) auto
  next
    case True
    with "1.prems" have inb: "0 \<le> j \<and> nat j < length data \<and> nat j < length lmem"
      by linarith
    let ?data = "data[nat j := fixed64_to_double (lmem ! nat j) 42]"
    from "1.IH" [OF True inb] "1.prems"
    obtain d where d: "cvt_out_loop lmem ?data bound (j + 1) = Inr d" "length d = length data"
      and el: "\<forall>k<length data. d ! k =
        (if nat (j + 1) \<le> k \<and> int k < bound then fixed64_to_double (lmem ! k) 42 else ?data ! k)"
      by auto
    have "d ! k = (if nat j \<le> k \<and> int k < bound then fixed64_to_double (lmem ! k) 42 else data ! k)"
      if "k < length data" for k
    proof (cases "k = nat j")
      case True
      with el that inb \<open>j < bound\<close> show ?thesis by simp
    next
      case False
      then have "nat (j + 1) \<le> k \<longleftrightarrow> nat j \<le> k" using inb by auto
      with el that False show ?thesis by simp
    qed
    with d show ?thesis
      using True inb by (subst cvt_out_loop.simps) simp
  qed
qed

lemma codec_loops_round_trip:
  assumes "bound \<le> int (length data)" "bound \<le> int (length lmem)"
    and "\<forall>k. int k < bound \<longrightarrow> - (2 ^ 63) \<le> data ! k * 2 ^ 42 \<and> data ! k * 2 ^ 42 < 2 ^ 63"
  shows "\<exists>m d. cvt_in_loop data lmem bound 0 = Inr m \<and> cvt_out_loop m data bound 0 = Inr d \<and>
     length d = length data \<and>
     (\<forall>k<length data. if int k < bound then \<bar>d ! k - data ! k\<bar> < 1 / 2 ^ 42 else d ! k = data ! k)"
proof -
  from cvt_in_loop_result [of 0 bound data lmem] assms(1,2)
  obtain m where m: "cvt_in_loop data lmem bound 0 = Inr m" "length m = length lmem"
    and mk: "\<forall>k<length lmem. m ! k =
        (if int k < bound then double_to_fixed64 (data ! k) 42 else lmem ! k)"
    by auto
  from cvt_out_loop_result [of 0 bound data m] assms(1,2) m(2)
  obtain d where d: "cvt_out_loop m data bound 0 = Inr d" "length d = length data"
    and dk: "\<forall>k<length data. d ! k =
        (if int k < bound then fixed64_to_double (m ! k) 42 else data ! k)"
    by auto
  have "if int k < bound then \<bar>d ! k - data ! k\<bar> < 1 / 2 ^ 42 else d ! k = data ! k"
    if "k < length data" for k
  proof (cases "int k < bound")
    case True
    with assms(2) have "k < length lmem" by simp
    with mk True have "m ! k = double_to_fixed64 (data ! k) 42" by simp
    with dk that True have "d ! k = fixed64_to_double (double_to_fixed64 (data ! k) 42) 42"
      by simp
    moreover from assms(3) True
    have "- (2 ^ 63) \<le> data ! k * 2 ^ 42" "data ! k * 2 ^ 42 < 2 ^ 63" by simp_all
    ultimately show ?thesis
      using True fixed64_round_trip_error [of "data ! k" 42] by simp
  next
    case False
    with dk that show ?thesis by simp
  qed
  with m d show ?thesis by blast
qed

text \<open>
  C9. For a real \<open>x\<close> whose scaled value \<open>x * 2 ^ b\<close> lies in the range of a 64-bit signed
  integer, decoding the encoding of \<open>x\<close> with \<open>b\<close> fractional bits differs from \<open>x\<close> by at
  most \<open>2 ^ - b\<close>. Hence the decoding loop, run on what the encoding loop wrote for such
  samples, leaves every converted sample within \<open>2 ^ - 42\<close> of its value before.
\<close>

theorem fixed_point_round_trip:
  "(representable x b \<longrightarrow>
      \<bar>fixed64_to_double (double_to_fixed64 x b) b - x\<bar> \<le> 1 / 2 ^ b) \<and>
   (bound \<le> int (length data) \<and> bound \<le> int (length lmem) \<and>
    (\<forall>k. int k < bound \<longrightarrow> representable (data ! k) 42) \<longrightarrow>
      (\<exists>m d. cvt_in_loop data lmem bound 0 = Inr m \<and> cvt_out_loop m data bound 0 = Inr d \<and>
         length d = length data \<and>
         (\<forall>k. int k < bound \<longrightarrow> \<bar>d ! k - data ! k\<bar> \<le> 1 / 2 ^ 42)))"
proof (intro conjI impI)
  assume "representable x b"
  then show "\<bar>fixed64_to_double (double_to_fixed64 x b) b - x\<bar> \<le> 1 / 2 ^ b"
    using fixed64_round_trip_error [of x b] by (simp add: representable_def)
next
  assume a: "bound \<le> int (length data) \<and> bound \<le> int (length lmem) \<and>
    (\<forall>k. int k < bound \<longrightarrow> representable (data ! k) 42)"
  then have "\<forall>k. int k < bound \<longrightarrow>
      - (2 ^ 63) \<le> data ! k * 2 ^ 42 \<and> data ! k * 2 ^ 42 < 2 ^ 63"
    by (simp add: representable_def)
  with a codec_loops_round_trip [of bound data lmem]
  obtain m d where md: "cvt_in_loop data lmem bound 0 = Inr m"
      "cvt_out_loop m data bound 0 = Inr d" "length d = length data"
    and err: "\<forall>k<length data. if int k < bound then \<bar>d ! k - data ! k\<bar> < 1 / 2 ^ 42
        else d ! k = data ! k"
    by blast
  have "\<bar>d ! k - data ! k\<bar> \<le> 1 / 2 ^ 42" if "int k < bound" for k
  proof -
    from that a have "k < length data" by linarith
    with err that have "\<bar>d ! k - data ! k\<bar> < 1 / 2 ^ 42" by (simp only: if_True)
    then show ?thesis by (rule less_imp_le)
  qed
  with md show "\<exists>m d. cvt_in_loop data lmem bound 0 = Inr m \<and>
      cvt_out_loop m data bound 0 = Inr d \<and> length d = length data \<and>
      (\<forall>k. int k < bound \<longrightarrow> \<bar>d ! k - data ! k\<bar> \<le> 1 / 2 ^ 42)"
    by blast
qed

theorem fixed_point_round_trip_witness:
  "representable (- 1 / 3) 42 \<and>
   double_to_fixed64 (- 1 / 3) 42 = - 1466015503701 \<and>
   fixed64_to_double (- 1466015503701) 42 = - 1466015503701 / 4398046511104 \<and>
   \<bar>fixed64_to_double (double_to_fixed64 (- 1 / 3) 42) 42 - (- 1 / 3)\<bar> \<le> 1 / 2 ^ 42 \<and>
   2 \<le> int (length [1 / 3, - 1 / 3 :: real]) \<and> 2 \<le> int (length [7, 7 :: i64]) \<and>
   representable ([1 / 3, - 1 / 3] ! 0) 42 \<and> representable ([1 / 3, - 1 / 3] ! 1) 42 \<and>
   cvt_in_loop [1 / 3, - 1 / 3] [7, 7] 2 0 = Inr [1466015503701, - 1466015503701] \<and>
   cvt_out_loop [1466015503701, - 1466015503701] [1 / 3, - 1 / 3] 2 0 =
     Inr [1466015503701 / 4398046511104, - 1466015503701 / 4398046511104] \<and>
   \<bar>[1466015503701 / 4398046511104, - 1466015503701 / 4398046511104] ! 1
      - [1 / 3, - 1 / 3 :: real] ! 1\<bar> \<le> 1 / 2 ^ 42"
proof -
  have h: "representable (- 1 / 3) 42" "representable ([1 / 3, - 1 / 3] ! 0) 42"
    "representable ([1 / 3, - 1 / 3] ! 1) 42"
    "2 \<le> int (length [1 / 3, - 1 / 3 :: real])" "2 \<le> int (length [7, 7 :: i64])"
    by (simp_all add: representable_def)
  have e: "double_to_fixed64 (- 1 / 3) 42 = - 1466015503701"
    by (simp add: double_to_fixed64_def trunc_toward_zero_def)
  have d: "fixed64_to_double (- 1466015503701) 42 = - 1466015503701 / 4398046511104"
    by (simp add: fixed64_to_double_def)
  have i: "cvt_in_loop [1 / 3, - 1 / 3] [7, 7] 2 0 = Inr [1466015503701, - 1466015503701]"
    by (simp add: cvt_in_loop.simps double_to_fixed64_def trunc_toward_zero_def)
  have out: "cvt_out_loop [1466015503701, - 1466015503701] [1 / 3, - 1 / 3] 2 0 =
     Inr [1466015503701 / 4398046511104, - 1466015503701 / 4398046511104]"
    by (simp add: cvt_out_loop.simps fixed64_to_double_def)
  have v: "\<bar>[1466015503701 / 4398046511104, - 1466015503701 / 4398046511104] ! 1
      - [1 / 3, - 1 / 3 :: real] ! 1\<bar> \<le> 1 / 2 ^ 42"
    by simp
  from fixed_point_round_trip [of "- 1 / 3" 42] h(1)
  have "\<bar>fixed64_to_double (double_to_fixed64 (- 1 / 3) 42) 42 - (- 1 / 3)\<bar> \<le> 1 / 2 ^ 42"
    by blast
  with h e d i out v show ?thesis by blast
qed

section \<open>Failure of the device request\<close>

lemma sint_small:
  fixes w :: u32
  assumes "uint w < 2 ^ 31"
  shows "sint w = uint w"
proof -
  have "signed_take_bit 31 (uint w) = uint w"
  proof (rule signed_take_bit_int_eq_self)
    have "0 \<le> uint w" by simp
    then show "- (2 ^ 31) \<le> uint w" by (rule order_trans [rotated]) simp
    show "uint w < 2 ^ 31" by (rule assms)
  qed
  then show ?thesis by (simp add: sint_uint)
qed

text \<open>
  C8. In the hardware build with a transform length \<open>fftHW_len = 2 ^ fftHW_log_len\<close>, a
  buffer of twice that many values and device memory for as many, bit reversal and
  encoding run through and the device request is made. When the request then returns a
  status other than 0, \<open>fft_in_hw\<close> ends the process with the failure reported through
  \<open>perror\<close>, and so does the whole function: nothing is decoded, scanned or returned.
\<close>

theorem device_failure_is_fatal:
  assumes "unat (fftHW_log_len hw) \<le> 29"
    and "unat (fftHW_len hw) = 2 ^ unat (fftHW_log_len hw)"
    and "length data = 2 * unat (fftHW_len hw)"
    and "2 * unat (fftHW_len hw) \<le> length (fftHW_lmem hw)"
  shows "\<exists>d1 m1.
      fft_bit_reverse data (fftHW_len hw) (fftHW_log_len hw) = Inr d1 \<and>
      cvt_in_loop d1 (fftHW_lmem hw) (2 * sint (fftHW_len hw)) 0 = Inr m1 \<and>
      (fst (ioctl m1) \<noteq> 0 \<longrightarrow>
         fft_in_hw ioctl m1 = Inl (Exit_Failure ''IOCTL:'') \<and>
         transform_stage (HW_FFT ioctl) p hw data = Inl (Exit_Failure ''IOCTL:'') \<and>
         calculate_peak_dist_from_fmcw (HW_FFT ioctl) p hw data = Inl (Exit_Failure ''IOCTL:''))"
proof -
  let ?len = "fftHW_len hw" and ?bound = "2 * sint (fftHW_len hw)"
  have "(2::nat) ^ unat (fftHW_log_len hw) \<le> 2 ^ 29"
    using assms(1) by (intro power_increasing) simp_all
  with assms(2) have small: "unat ?len \<le> 2 ^ 29" by simp
  have u: "uint ?len = int (unat ?len)" by (rule uint_nat)
  from small have "int (unat ?len) \<le> int (2 ^ 29)" by (simp only: of_nat_le_iff)
  then have small': "uint ?len \<le> 2 ^ 29" unfolding u by simp
  then have sint: "sint ?len = uint ?len" by (intro sint_small) simp
  have nonneg: "0 \<le> uint ?len" by simp
  from small' have "uint ?len \<le> 536870912" by simp
  with nonneg have "\<not> (2 * uint ?len < - 2147483648 \<or> 2147483647 < 2 * uint ?len)"
    by linarith
  then have r: "\<not> (?bound < - (2 ^ 31) \<or> 2 ^ 31 - 1 < ?bound)"
    unfolding sint by simp
  from assms(1) have "unat (fftHW_log_len hw) \<le> 31" by simp
  from fft_bit_reverse_samples [OF this assms(2,3)]
  obtain d1 where d1: "fft_bit_reverse data ?len (fftHW_log_len hw) = Inr d1"
    "length d1 = length data"
    by blast
  have "?bound \<le> int (length d1)" "?bound \<le> int (length (fftHW_lmem hw))"
    unfolding sint u using d1(2) assms(3,4) by linarith+
  from cvt_in_loop_result [OF _ this, of 0]
  obtain m1 where m1: "cvt_in_loop d1 (fftHW_lmem hw) ?bound 0 = Inr m1"
    by auto
  have "fft_in_hw ioctl m1 = Inl (Exit_Failure ''IOCTL:'') \<and>
      transform_stage (HW_FFT ioctl) p hw data = Inl (Exit_Failure ''IOCTL:'') \<and>
      calculate_peak_dist_from_fmcw (HW_FFT ioctl) p hw data = Inl (Exit_Failure ''IOCTL:'')"
    if "fst (ioctl m1) \<noteq> 0"
  proof -
    from that have f: "fft_in_hw ioctl m1 = Inl (Exit_Failure ''IOCTL:'')"
      by (cases "ioctl m1") (simp add: fft_in_hw_def)
    have t: "transform_stage (HW_FFT ioctl) p hw data = Inl (Exit_Failure ''IOCTL:'')"
      unfolding transform_stage_def using d1(1) m1 f r by (simp add: Let_def)
    with f show ?thesis by (simp add: calculate_peak_dist_from_fmcw_def)
  qed
  with d1(1) m1 show ?thesis by blast
qed

theorem device_failure_is_fatal_witness:
  "unat (fftHW_log_len fftHW0) \<le> 29 \<and>
   unat (fftHW_len fftHW0) = 2 ^ unat (fftHW_log_len fftHW0) \<and>
   length [0, 0, 1, 1 / 4 :: real] = 2 * unat (fftHW_len fftHW0) \<and>
   2 * unat (fftHW_len fftHW0) \<le> length (fftHW_lmem fftHW0) \<and>
   fft_bit_reverse [0, 0, 1, 1 / 4 :: real] (fftHW_len fftHW0) (fftHW_log_len fftHW0) =
     Inr [0, 0, 1, 1 / 4] \<and>
   cvt_in_loop [0, 0, 1, 1 / 4] (fftHW_lmem fftHW0) (2 * sint (fftHW_len fftHW0)) 0 =
     Inr [0, 0, 2 ^ 42, 2 ^ 40] \<and>
   fst (ioctl_fail [0, 0, 2 ^ 42, 2 ^ 40]) \<noteq> 0 \<and>
   calculate_peak_dist_from_fmcw (HW_FFT ioctl_fail) radar0 fftHW0 [0, 0, 1, 1 / 4] =
     Inl (Exit_Failure ''IOCTL:'')"
proof -
  have h: "unat (fftHW_log_len fftHW0) \<le> 29"
    "unat (fftHW_len fftHW0) = 2 ^ unat (fftHW_log_len fftHW0)"
    "length [0, 0, 1, 1 / 4 :: real] = 2 * unat (fftHW_len fftHW0)"
    "2 * unat (fftHW_len fftHW0) \<le> length (fftHW_lmem fftHW0)"
    by (simp_all add: fftHW0_def)
  have b: "fft_bit_reverse [0, 0, 1, 1 / 4 :: real] (fftHW_len fftHW0) (fftHW_log_len fftHW0) =
     Inr [0, 0, 1, 1 / 4]"
    by (simp add: fftHW0_def fft_bit_reverse_def fft_bit_reverse_loop.simps swap_samples_def
        fft_rev_def fft_rev_loop.simps)
  have c: "cvt_in_loop [0, 0, 1, 1 / 4] (fftHW_lmem fftHW0) (2 * sint (fftHW_len fftHW0)) 0 =
     Inr [0, 0, 2 ^ 42, 2 ^ 40]"
    by (simp add: fftHW0_def cvt_in_loop.simps double_to_fixed64_def trunc_toward_zero_def)
  have s: "fst (ioctl_fail [0, 0, 2 ^ 42, 2 ^ 40]) \<noteq> 0"
    by (simp add: ioctl_fail_def)
  from device_failure_is_fatal [where ioctl = ioctl_fail and p = radar0, OF h]
  obtain d1 m1 where
    "fft_bit_reverse [0, 0, 1, 1 / 4 :: real] (fftHW_len fftHW0) (fftHW_log_len fftHW0) = Inr d1"
    "cvt_in_loop d1 (fftHW_lmem fftHW0) (2 * sint (fftHW_len fftHW0)) 0 = Inr m1"
    and imp: "fst (ioctl_fail m1) \<noteq> 0 \<longrightarrow>
       calculate_peak_dist_from_fmcw (HW_FFT ioctl_fail) radar0 fftHW0 [0, 0, 1, 1 / 4] =
         Inl (Exit_Failure ''IOCTL:'')"
    by blast
  with b c have "d1 = [0, 0, 1, 1 / 4]" "m1 = [0, 0, 2 ^ 42, 2 ^ 40]" by simp_all
  with imp s have "calculate_peak_dist_from_fmcw (HW_FFT ioctl_fail) radar0 fftHW0 [0, 0, 1, 1 / 4] =
      Inl (Exit_Failure ''IOCTL:'')"
    by simp
  with h b c s show ?thesis by blast
qed

end
